theory Spec2Isabelle
  imports Main
begin

section \<open>RawMemory: ownership of one storage region\<close>

text \<open>
  \<^verbatim>\<open>RawMemory<T>\<close> of \<^verbatim>\<open>vector.h\<close> holds a pointer \<^verbatim>\<open>buffer_\<close> and
  a count \<^verbatim>\<open>capacity_\<close>. For the ownership discipline only the identity of the
  region matters, so a region is an address (a natural number), \<^verbatim>\<open>nullptr\<close> is
  \<open>None\<close>, and the free store is a counter of fresh addresses together with the
  history of the calls of \<^verbatim>\<open>operator new\<close> and \<^verbatim>\<open>operator delete\<close>.
  (Isabelle does not accept a name that ends in an underscore, hence the fields
  \<open>buffer_m\<close> and \<open>capacity_m\<close>.)
\<close>

datatype error = AllocationFailure | ElementFailure

datatype event = Allocated nat | Released nat

record heap =
  fresh :: nat
  history :: "event list"

record RawMemory =
  buffer_m :: "nat option"
  capacity_m :: nat

definition empty_heap :: heap where
  "empty_heap = \<lparr>fresh = 0, history = []\<rparr>"

text \<open>\<^verbatim>\<open>Allocate(n)\<close>: \<^verbatim>\<open>n != 0 ? operator new(n * sizeof(T)) : nullptr\<close>. The
  predicate \<open>fails\<close> says for which requests \<^verbatim>\<open>operator new\<close> throws.\<close>

definition Allocate :: "(nat \<Rightarrow> bool) \<Rightarrow> nat \<Rightarrow> heap \<Rightarrow> error + (nat option \<times> heap)" where
  "Allocate fails n h =
     (if n \<noteq> 0 then
        (if fails n then Inl AllocationFailure
         else Inr (Some (fresh h),
                   \<lparr>fresh = Suc (fresh h), history = history h @ [Allocated (fresh h)]\<rparr>))
      else Inr (None, h))"

text \<open>\<^verbatim>\<open>Deallocate(buf)\<close>: \<^verbatim>\<open>operator delete(buf)\<close>, which does nothing on
  \<^verbatim>\<open>nullptr\<close>.\<close>

definition Deallocate :: "nat option \<Rightarrow> heap \<Rightarrow> heap" where
  "Deallocate buf h =
     (case buf of None \<Rightarrow> h | Some p \<Rightarrow> h\<lparr>history := history h @ [Released p]\<rparr>)"

definition RawMemory_default :: RawMemory where
  "RawMemory_default = \<lparr>buffer_m = None, capacity_m = 0\<rparr>"

text \<open>\<^verbatim>\<open>RawMemory(size_t capacity)\<close>.\<close>

definition RawMemory_ctor :: "(nat \<Rightarrow> bool) \<Rightarrow> nat \<Rightarrow> heap \<Rightarrow> error + (RawMemory \<times> heap)" where
  "RawMemory_ctor fails capacity h =
     (case Allocate fails capacity h of
        Inl e \<Rightarrow> Inl e
      | Inr (p, h') \<Rightarrow> Inr (\<lparr>buffer_m = p, capacity_m = capacity\<rparr>, h'))"

text \<open>\<^verbatim>\<open>RawMemory(RawMemory&& other)\<close>: the new object and what is left of
  \<open>other\<close>.\<close>

definition RawMemory_move_ctor :: "RawMemory \<Rightarrow> RawMemory \<times> RawMemory" where
  "RawMemory_move_ctor other =
     (\<lparr>buffer_m = buffer_m other, capacity_m = capacity_m other\<rparr>,
      other\<lparr>buffer_m := None, capacity_m := 0\<rparr>)"

text \<open>\<^verbatim>\<open>operator=(RawMemory&& rhs)\<close> on two distinct objects: the four
  assignments of the source, in their order; the result is \<open>(*this, rhs)\<close>.\<close>

definition RawMemory_move_assign :: "RawMemory \<Rightarrow> RawMemory \<Rightarrow> RawMemory \<times> RawMemory" where
  "RawMemory_move_assign this rhs =
     (let this1 = this\<lparr>buffer_m := buffer_m rhs\<rparr>;
          this2 = this1\<lparr>capacity_m := capacity_m rhs\<rparr>;
          rhs1 = rhs\<lparr>buffer_m := None\<rparr>;
          rhs2 = rhs1\<lparr>capacity_m := 0\<rparr>
      in (this2, rhs2))"

text \<open>\<^verbatim>\<open>~RawMemory()\<close>.\<close>

definition RawMemory_dtor :: "RawMemory \<Rightarrow> heap \<Rightarrow> heap" where
  "RawMemory_dtor this h = Deallocate (buffer_m this) h"

text \<open>\<^verbatim>\<open>RawMemory::Swap\<close>.\<close>

definition RawMemory_Swap :: "RawMemory \<Rightarrow> RawMemory \<Rightarrow> RawMemory \<times> RawMemory" where
  "RawMemory_Swap this other =
     (this\<lparr>buffer_m := buffer_m other, capacity_m := capacity_m other\<rparr>,
      other\<lparr>buffer_m := buffer_m this, capacity_m := capacity_m this\<rparr>)"

definition released_count :: "nat \<Rightarrow> heap \<Rightarrow> nat" where
  "released_count p h = length (filter (\<lambda>e. e = Released p) (history h))"

definition allocated_count :: "nat \<Rightarrow> heap \<Rightarrow> nat" where
  "allocated_count p h = length (filter (\<lambda>e. e = Allocated p) (history h))"

text \<open>
  The lifetime of two blocks, the first of which is the target of a move assignment:
  \<^verbatim>\<open>{ RawMemory<T> a(1); RawMemory<T> b(1); a = std::move(b); }\<close>, the destructors
  running in reverse order of construction at the closing brace.
\<close>

definition move_assign_lifetime :: "error + heap" where
  "move_assign_lifetime =
     (case RawMemory_ctor (\<lambda>n. False) 1 empty_heap of
        Inl e \<Rightarrow> Inl e
      | Inr (a, h1) \<Rightarrow>
          (case RawMemory_ctor (\<lambda>n. False) 1 h1 of
             Inl e \<Rightarrow> Inl e
           | Inr (b, h2) \<Rightarrow>
               (let (a', b') = RawMemory_move_assign a b;
                    h3 = RawMemory_dtor b' h2;
                    h4 = RawMemory_dtor a' h3
                in Inr h4)))"

text \<open>The same lifetime with \<^verbatim>\<open>a.Swap(b)\<close> in place of the assignment.\<close>

definition swap_lifetime :: "error + heap" where
  "swap_lifetime =
     (case RawMemory_ctor (\<lambda>n. False) 1 empty_heap of
        Inl e \<Rightarrow> Inl e
      | Inr (a, h1) \<Rightarrow>
          (case RawMemory_ctor (\<lambda>n. False) 1 h1 of
             Inl e \<Rightarrow> Inl e
           | Inr (b, h2) \<Rightarrow>
               (let (a', b') = RawMemory_Swap a b;
                    h3 = RawMemory_dtor b' h2;
                    h4 = RawMemory_dtor a' h3
                in Inr h4)))"

section \<open>Vector: a block of slots and a count of live elements\<close>

text \<open>
  A \<^verbatim>\<open>Vector<T>\<close> owns its block exclusively, so here the block is a value: the
  list of the slots that the storage obtained from \<^verbatim>\<open>operator new\<close> has room for, a
  slot being \<open>None\<close> (raw storage) or \<open>Some x\<close> (a live object of value \<open>x\<close>).
  The count \<^verbatim>\<open>capacity_\<close> is kept beside it as the code keeps it: it is what the
  constructor of \<^verbatim>\<open>RawMemory\<close> was asked for, and \<^verbatim>\<open>Allocate\<close> computes the
  number of bytes \<^verbatim>\<open>n * sizeof(T)\<close> in \<^verbatim>\<open>size_t\<close>, so for a large \<open>n\<close> the
  product wraps around and the block has fewer slots than \<^verbatim>\<open>capacity_\<close> says.
  \<^verbatim>\<open>size_t\<close> has 64 bits. The counts themselves are natural numbers: the growth
  request \<^verbatim>\<open>size_ * 2\<close> is twice the number of live elements, which stays within
  \<^verbatim>\<open>size_t\<close> for every vector whose block exists (see \<open>vector_inv\<close>).
\<close>

type_synonym 'a block = "'a option list"

text \<open>
  What a member function does: it returns a value and leaves a state, or an exception
  leaves it and a state is left behind, or it has no defined behaviour (a slot read or
  destroyed that holds no object, an index outside the block).
\<close>

datatype ('r, 's) outcome = Returns 'r 's | Throws error 's | Undefined

text \<open>
  The element type \<^verbatim>\<open>T\<close> and the allocator are parameters of the template; the record
  holds what the code asks of them: the two type traits tested by
  \<^verbatim>\<open>if constexpr\<close>, for which values the copy constructor, the move constructor and
  the assignments throw, the value a move leaves behind in its source, the value of
  \<^verbatim>\<open>T()\<close>, at which slots value-initialisation throws, \<^verbatim>\<open>sizeof(T)\<close>, and for
  which requests (given as the number of elements asked for) \<^verbatim>\<open>operator new\<close>
  throws. A copy or a move that succeeds yields the value of its source.
\<close>

record 'a traits =
  is_copy_constructible :: bool
  is_nothrow_move_constructible :: bool
  copy_throws :: "'a \<Rightarrow> bool"
  move_throws :: "'a \<Rightarrow> bool"
  moved_from :: "'a \<Rightarrow> 'a"
  copy_assign_throws :: "'a \<Rightarrow> bool"
  move_assign_throws :: "'a \<Rightarrow> bool"
  default_value :: 'a
  default_throws :: "nat \<Rightarrow> bool"
  size_of :: nat
  alloc_throws :: "nat \<Rightarrow> bool"

text \<open>The fields \<^verbatim>\<open>data_.buffer_\<close>, \<^verbatim>\<open>data_.capacity_\<close> and \<^verbatim>\<open>size_\<close>.\<close>

record 'a Vector =
  data_v :: "'a block"
  capacity_v :: nat
  size_v :: nat

definition Size :: "'a Vector \<Rightarrow> nat" where
  "Size v = size_v v"

definition Capacity :: "'a Vector \<Rightarrow> nat" where
  "Capacity v = capacity_v v"

text \<open>\<^verbatim>\<open>n * sizeof(T)\<close> as \<^verbatim>\<open>Allocate\<close> computes it, in \<^verbatim>\<open>size_t\<close>.\<close>

definition bytes_requested :: "'a traits \<Rightarrow> nat \<Rightarrow> int" where
  "bytes_requested T n = (int n * int (size_of T)) mod 2 ^ 64"

text \<open>
  The buffer of \<^verbatim>\<open>RawMemory<T> new_data(n)\<close>: no allocation for \<open>n = 0\<close>;
  otherwise \<^verbatim>\<open>operator new(n * sizeof(T))\<close>, which throws or supplies storage for
  as many slots as fit into the bytes it was asked for. No platform supplies half of the
  address space or more in one piece (requests above \<^verbatim>\<open>PTRDIFF_MAX\<close> fail). The
  caller keeps \<open>n\<close> as \<^verbatim>\<open>capacity_\<close> whatever the block has room for.
\<close>

definition new_RawMemory :: "'a traits \<Rightarrow> nat \<Rightarrow> error + 'a block" where
  "new_RawMemory T n =
     (if n \<noteq> 0 then
        (if alloc_throws T n \<or> 2 ^ 63 \<le> bytes_requested T n then Inl AllocationFailure
         else Inr (replicate (nat (bytes_requested T n div int (size_of T))) None))
      else Inr [])"

text \<open>\<^verbatim>\<open>T(const T&)\<close> and \<^verbatim>\<open>T(T&&)\<close> on a value: \<open>None\<close> when the constructor
  throws. A move constructor that is \<^verbatim>\<open>noexcept\<close> does not throw.\<close>

definition copy_of :: "'a traits \<Rightarrow> 'a \<Rightarrow> 'a option" where
  "copy_of T x = (if copy_throws T x then None else Some x)"

definition move_of :: "'a traits \<Rightarrow> 'a \<Rightarrow> 'a option" where
  "move_of T x =
     (if \<not> is_nothrow_move_constructible T \<and> move_throws T x then None else Some x)"

subsection \<open>Statements in sequence, loops, handlers\<close>

definition and_then :: "('r, 's) outcome \<Rightarrow> ('s \<Rightarrow> ('q, 's) outcome) \<Rightarrow> ('q, 's) outcome" where
  "and_then m f =
     (case m of Returns r s \<Rightarrow> f s | Throws e s \<Rightarrow> Throws e s | Undefined \<Rightarrow> Undefined)"

text \<open>\<^verbatim>\<open>try { m } catch (...) { h }\<close>: the handler runs on the state the exception
  left; when the handler ends without \<^verbatim>\<open>throw;\<close> execution goes on after it.\<close>

definition try_catch :: "('r, 's) outcome \<Rightarrow> ('s \<Rightarrow> ('r, 's) outcome) \<Rightarrow> ('r, 's) outcome" where
  "try_catch m h =
     (case m of Returns r s \<Rightarrow> Returns r s | Throws e s \<Rightarrow> h s | Undefined \<Rightarrow> Undefined)"

text \<open>\<^verbatim>\<open>for (size_t i = lo; i < hi; i++) body(i)\<close> is \<open>for_each body [lo..<hi]\<close>.\<close>

fun for_each :: "(nat \<Rightarrow> 's \<Rightarrow> (unit, 's) outcome) \<Rightarrow> nat list \<Rightarrow> 's \<Rightarrow> (unit, 's) outcome" where
  "for_each body [] s = Returns () s"
| "for_each body (i # is) s =
     (case body i s of
        Returns r s' \<Rightarrow> for_each body is s'
      | Throws e s' \<Rightarrow> Throws e s'
      | Undefined \<Rightarrow> Undefined)"

text \<open>
  The loop of the standard algorithms on raw storage
  (\<^verbatim>\<open>std::uninitialized_copy_n\<close> and its relatives):
  \<^verbatim>\<open>try { for (...) construct(current) } catch (...) { destroy(first, current); throw; }\<close>.
  \<open>done\<close> lists the slots constructed so far.
\<close>

fun guarded :: "(nat \<Rightarrow> 's \<Rightarrow> (unit, 's) outcome) \<Rightarrow> (nat \<Rightarrow> 's \<Rightarrow> (unit, 's) outcome) \<Rightarrow>
    nat list \<Rightarrow> nat list \<Rightarrow> 's \<Rightarrow> (unit, 's) outcome" where
  "guarded construct destroy done [] s = Returns () s"
| "guarded construct destroy done (i # is) s =
     (case construct i s of
        Returns r s' \<Rightarrow> guarded construct destroy (done @ [i]) is s'
      | Throws e s' \<Rightarrow>
          (case for_each destroy done s' of
             Returns r s'' \<Rightarrow> Throws e s''
           | Throws e' s'' \<Rightarrow> Undefined
           | Undefined \<Rightarrow> Undefined)
      | Undefined \<Rightarrow> Undefined)"

subsection \<open>Operations on single slots\<close>

text \<open>\<^verbatim>\<open>Destroy(buf + i)\<close>: \<^verbatim>\<open>buf->~T()\<close>; the slot must hold an object.\<close>

definition Destroy :: "nat \<Rightarrow> 'a block \<Rightarrow> (unit, 'a block) outcome" where
  "Destroy i b =
     (if i < length b \<and> b ! i \<noteq> None then Returns () (b[i := None]) else Undefined)"

text \<open>\<^verbatim>\<open>DestroyN(buf, n)\<close>: \<^verbatim>\<open>for (size_t i = 0; i != n; ++i) Destroy(buf + i)\<close>.\<close>

definition DestroyN :: "nat \<Rightarrow> 'a block \<Rightarrow> (unit, 'a block) outcome" where
  "DestroyN n b = for_each Destroy [0..<n] b"

text \<open>The same two on the first block (the new one) of a pair, and \<open>DestroyN\<close> on
  the second (the old one).\<close>

definition Destroy_new :: "nat \<Rightarrow> 'a block \<times> 'a block \<Rightarrow> (unit, 'a block \<times> 'a block) outcome" where
  "Destroy_new i s =
     (case Destroy i (fst s) of
        Returns r d \<Rightarrow> Returns () (d, snd s)
      | Throws e d \<Rightarrow> Throws e (d, snd s)
      | Undefined \<Rightarrow> Undefined)"

definition DestroyN_new :: "nat \<Rightarrow> 'a block \<times> 'a block \<Rightarrow> (unit, 'a block \<times> 'a block) outcome" where
  "DestroyN_new n s = for_each Destroy_new [0..<n] s"

definition DestroyN_old :: "nat \<Rightarrow> 'a block \<times> 'a block \<Rightarrow> (unit, 'a block \<times> 'a block) outcome" where
  "DestroyN_old n s =
     (case DestroyN n (snd s) of
        Returns r d \<Rightarrow> Returns () (fst s, d)
      | Throws e d \<Rightarrow> Throws e (fst s, d)
      | Undefined \<Rightarrow> Undefined)"

text \<open>\<^verbatim>\<open>CopyConstruct(dst + j, src[i])\<close>: \<^verbatim>\<open>new (buf) T(elem)\<close>. The state is the
  pair of the destination block and the source block.\<close>

definition CopyConstruct :: "'a traits \<Rightarrow> nat \<Rightarrow> nat \<Rightarrow> 'a block \<times> 'a block \<Rightarrow>
    (unit, 'a block \<times> 'a block) outcome" where
  "CopyConstruct T j i s =
     (case s of (dst, src) \<Rightarrow>
        if i < length src \<and> j < length dst then
          (case src ! i of
             None \<Rightarrow> Undefined
           | Some x \<Rightarrow>
               (case copy_of T x of
                  None \<Rightarrow> Throws ElementFailure s
                | Some y \<Rightarrow> Returns () (dst[j := Some y], src)))
        else Undefined)"

text \<open>\<^verbatim>\<open>MoveConstruct(dst + j, std::move(src[i]))\<close>: \<^verbatim>\<open>new (buf) T(std::move(elem))\<close>;
  the source slot keeps a live, moved-from object.\<close>

definition MoveConstruct :: "'a traits \<Rightarrow> nat \<Rightarrow> nat \<Rightarrow> 'a block \<times> 'a block \<Rightarrow>
    (unit, 'a block \<times> 'a block) outcome" where
  "MoveConstruct T j i s =
     (case s of (dst, src) \<Rightarrow>
        if i < length src \<and> j < length dst then
          (case src ! i of
             None \<Rightarrow> Undefined
           | Some x \<Rightarrow>
               (case move_of T x of
                  None \<Rightarrow> Throws ElementFailure s
                | Some y \<Rightarrow> Returns () (dst[j := Some y], src[i := Some (moved_from T x)])))
        else Undefined)"

text \<open>\<^verbatim>\<open>MoveConstruct\<close> with both pointers into one block, as in
  \<^verbatim>\<open>MoveConstruct(end(), std::move(*(end() - 1)))\<close>.\<close>

definition MoveConstruct_same :: "'a traits \<Rightarrow> nat \<Rightarrow> nat \<Rightarrow> 'a block \<Rightarrow> (unit, 'a block) outcome" where
  "MoveConstruct_same T j i b =
     (if i < length b \<and> j < length b then
        (case b ! i of
           None \<Rightarrow> Undefined
         | Some x \<Rightarrow>
             (case move_of T x of
                None \<Rightarrow> Throws ElementFailure b
              | Some y \<Rightarrow> Returns () (b[i := Some (moved_from T x), j := Some y])))
      else Undefined)"

text \<open>\<^verbatim>\<open>data_[i] = rhs.data_[i]\<close>: copy assignment between two live objects.\<close>

definition CopyAssign :: "'a traits \<Rightarrow> nat \<Rightarrow> 'a block \<times> 'a block \<Rightarrow>
    (unit, 'a block \<times> 'a block) outcome" where
  "CopyAssign T i s =
     (case s of (dst, src) \<Rightarrow>
        if i < length src \<and> i < length dst then
          (case (dst ! i, src ! i) of
             (Some old, Some x) \<Rightarrow>
               if copy_assign_throws T x then Throws ElementFailure s
               else Returns () (dst[i := Some x], src)
           | _ \<Rightarrow> Undefined)
        else Undefined)"

text \<open>\<^verbatim>\<open>b[j] = std::move(b[i])\<close>: move assignment between two live objects of one
  block.\<close>

definition MoveAssign_same :: "'a traits \<Rightarrow> nat \<Rightarrow> nat \<Rightarrow> 'a block \<Rightarrow> (unit, 'a block) outcome" where
  "MoveAssign_same T j i b =
     (if i < length b \<and> j < length b then
        (case (b ! j, b ! i) of
           (Some old, Some x) \<Rightarrow>
             if move_assign_throws T x then Throws ElementFailure b
             else Returns () (b[i := Some (moved_from T x), j := Some x])
         | _ \<Rightarrow> Undefined)
      else Undefined)"

text \<open>\<^verbatim>\<open>data_[j] = std::move(obj)\<close> for a local object \<open>obj\<close>.\<close>

definition MoveAssign_value :: "'a traits \<Rightarrow> nat \<Rightarrow> 'a \<Rightarrow> 'a block \<Rightarrow> (unit, 'a block) outcome" where
  "MoveAssign_value T j obj b =
     (if j < length b then
        (case b ! j of
           None \<Rightarrow> Undefined
         | Some old \<Rightarrow>
             if move_assign_throws T obj then Throws ElementFailure b
             else Returns () (b[j := Some obj]))
      else Undefined)"

text \<open>\<^verbatim>\<open>new (b + i) T()\<close>.\<close>

definition ValueConstruct :: "'a traits \<Rightarrow> nat \<Rightarrow> 'a block \<Rightarrow> (unit, 'a block) outcome" where
  "ValueConstruct T i b =
     (if i < length b then
        (if default_throws T i then Throws ElementFailure b
         else Returns () (b[i := Some (default_value T)]))
      else Undefined)"

subsection \<open>The standard algorithms the code calls\<close>


definition uninitialized_value_construct_n :: "'a traits \<Rightarrow> nat \<Rightarrow> 'a block \<Rightarrow>
    (unit, 'a block) outcome" where
  "uninitialized_value_construct_n T n b = guarded (ValueConstruct T) Destroy [] [0..<n] b"

text \<open>\<^verbatim>\<open>std::uninitialized_copy(src + first, src + last, dst + first)\<close>.\<close>

definition uninitialized_copy :: "'a traits \<Rightarrow> nat \<Rightarrow> nat \<Rightarrow> 'a block \<times> 'a block \<Rightarrow>
    (unit, 'a block \<times> 'a block) outcome" where
  "uninitialized_copy T first last_i s =
     guarded (\<lambda>i. CopyConstruct T i i) Destroy_new [] [first..<last_i] s"

definition uninitialized_copy_n :: "'a traits \<Rightarrow> nat \<Rightarrow> 'a block \<times> 'a block \<Rightarrow>
    (unit, 'a block \<times> 'a block) outcome" where
  "uninitialized_copy_n T n s = guarded (\<lambda>i. CopyConstruct T i i) Destroy_new [] [0..<n] s"



text \<open>\<^verbatim>\<open>std::move_backward(b + first, b + last, b + d_last)\<close>: from the last element
  to the first, \<^verbatim>\<open>*(--d_last) = std::move(*(--last))\<close>.\<close>

definition move_backward :: "'a traits \<Rightarrow> nat \<Rightarrow> nat \<Rightarrow> nat \<Rightarrow> 'a block \<Rightarrow> (unit, 'a block) outcome" where
  "move_backward T first last_i d_last b =
     (if first \<le> last_i \<and> last_i \<le> d_last then
        for_each (\<lambda>i. MoveAssign_same T (i + (d_last - last_i)) i) (rev [first..<last_i]) b
      else Undefined)"

text \<open>\<^verbatim>\<open>std::move(b + first, b + last, b + d_first)\<close>, which returns
  \<^verbatim>\<open>d_first + (last - first)\<close>.\<close>

definition move_range :: "'a traits \<Rightarrow> nat \<Rightarrow> nat \<Rightarrow> nat \<Rightarrow> 'a block \<Rightarrow> (nat, 'a block) outcome" where
  "move_range T first last_i d_first b =
     (if first \<le> last_i \<and> d_first \<le> first then
        (case for_each (\<lambda>i. MoveAssign_same T (i - (first - d_first)) i) [first..<last_i] b of
           Returns r b' \<Rightarrow> Returns (d_first + (last_i - first)) b'
         | Throws e b' \<Rightarrow> Throws e b'
         | Undefined \<Rightarrow> Undefined)
      else Undefined)"

subsection \<open>Relocation during a growth cycle\<close>

text \<open>The condition of every \<^verbatim>\<open>if constexpr\<close> of the source:
  \<^verbatim>\<open>!std::is_copy_constructible_v<T> || std::is_nothrow_move_constructible_v<T>\<close>.\<close>

definition relocates_by_move :: "'a traits \<Rightarrow> bool" where
  "relocates_by_move T = (\<not> is_copy_constructible T \<or> is_nothrow_move_constructible T)"

text \<open>
  The pair of loops under that condition, as written three times in the source
  (\<^verbatim>\<open>EmplaceBack\<close>, and the prefix and the suffix of \<^verbatim>\<open>Emplace\<close>): for each
  \<open>i\<close> of the range, \<^verbatim>\<open>MoveConstruct(new_data + i + off, std::move(data_[i]))\<close>
  or \<^verbatim>\<open>CopyConstruct(new_data + i + off, data_[i])\<close>. These hand-written loops
  destroy nothing when a constructor throws.
\<close>

definition relocate :: "'a traits \<Rightarrow> nat \<Rightarrow> nat list \<Rightarrow> 'a block \<times> 'a block \<Rightarrow>
    (unit, 'a block \<times> 'a block) outcome" where
  "relocate T off is s =
     (if relocates_by_move T then for_each (\<lambda>i. MoveConstruct T (i + off) i) is s
      else for_each (\<lambda>i. CopyConstruct T (i + off) i) is s)"

subsection \<open>Constructors and destructor\<close>

definition Vector_default :: "'a Vector" where
  "Vector_default = \<lparr>data_v = [], capacity_v = 0, size_v = 0\<rparr>"

text \<open>A constructor that throws leaves no object: the state of its outcome is
  \<open>()\<close>.\<close>

definition Vector_sized :: "'a traits \<Rightarrow> nat \<Rightarrow> ('a Vector, unit) outcome" where
  "Vector_sized T n =
     (case new_RawMemory T n of
        Inl e \<Rightarrow> Throws e ()
      | Inr d \<Rightarrow>
          (case uninitialized_value_construct_n T n d of
             Returns r d' \<Rightarrow> Returns \<lparr>data_v = d', capacity_v = n, size_v = n\<rparr> ()
           | Throws e d' \<Rightarrow> Throws e ()
           | Undefined \<Rightarrow> Undefined))"

definition Vector_copy :: "'a traits \<Rightarrow> 'a Vector \<Rightarrow> ('a Vector, unit) outcome" where
  "Vector_copy T other =
     (case new_RawMemory T (size_v other) of
        Inl e \<Rightarrow> Throws e ()
      | Inr d \<Rightarrow>
          (case uninitialized_copy_n T (size_v other) (d, data_v other) of
             Returns r s \<Rightarrow>
               Returns \<lparr>data_v = fst s, capacity_v = size_v other, size_v = size_v other\<rparr> ()
           | Throws e s \<Rightarrow> Throws e ()
           | Undefined \<Rightarrow> Undefined))"

text \<open>\<^verbatim>\<open>Vector(Vector&& other)\<close>: the new object and what is left of \<open>other\<close>.\<close>

definition Vector_move :: "'a Vector \<Rightarrow> 'a Vector \<times> 'a Vector" where
  "Vector_move other =
     (\<lparr>data_v = data_v other, capacity_v = capacity_v other, size_v = size_v other\<rparr>,
      \<lparr>data_v = [], capacity_v = 0, size_v = 0\<rparr>)"

text \<open>\<^verbatim>\<open>~Vector()\<close>: \<^verbatim>\<open>DestroyN(data_.GetAddress(), size_)\<close>, then the block is
  released.\<close>

definition Vector_dtor :: "'a Vector \<Rightarrow> (unit, 'a block) outcome" where
  "Vector_dtor v = DestroyN (size_v v) (data_v v)"

subsection \<open>Member functions on one vector\<close>

text \<open>\<^verbatim>\<open>operator[]\<close>, with its \<^verbatim>\<open>assert(index < size_)\<close>: \<open>None\<close> where the
  access is not defined.\<close>

definition at :: "'a Vector \<Rightarrow> nat \<Rightarrow> 'a option" where
  "at v index =
     (if index < size_v v \<and> index < length (data_v v) then data_v v ! index else None)"



text \<open>
  \<^verbatim>\<open>EmplaceBack(args...)\<close>. The argument \<open>ctor\<close> is what \<^verbatim>\<open>T(std::forward<Args>(args)...)\<close>
  does: \<open>None\<close> when it throws, \<open>Some x\<close> when it builds the value \<open>x\<close>. The value
  returned is the index of the element the returned reference points to. A placement
  \<^verbatim>\<open>new\<close> at a slot for which the block has no room has no defined behaviour.
\<close>

definition EmplaceBack :: "'a traits \<Rightarrow> 'a option \<Rightarrow> 'a Vector \<Rightarrow> (nat, 'a Vector) outcome" where
  "EmplaceBack T ctor v =
     (if size_v v < Capacity v then
        (case ctor of
           None \<Rightarrow> Throws ElementFailure v
         | Some x \<Rightarrow>
             if size_v v < length (data_v v) then
               Returns (size_v v)
                 (v\<lparr>data_v := (data_v v)[size_v v := Some x], size_v := size_v v + 1\<rparr>)
             else Undefined)
      else
        (case new_RawMemory T (if size_v v = 0 then 1 else size_v v * 2) of
           Inl e \<Rightarrow> Throws e v
         | Inr new_data \<Rightarrow>
             (case ctor of
                None \<Rightarrow> Throws ElementFailure v
              | Some x \<Rightarrow>
                  if size_v v < length new_data then
                    (case and_then
                            (relocate T 0 [0..<size_v v]
                               (new_data[size_v v := Some x], data_v v))
                            (DestroyN_old (size_v v)) of
                       Returns r s \<Rightarrow>
                         Returns (size_v v)
                           \<lparr>data_v = fst s,
                            capacity_v = (if size_v v = 0 then 1 else size_v v * 2),
                            size_v = size_v v + 1\<rparr>
                     | Throws e s \<Rightarrow> Throws e (v\<lparr>data_v := snd s\<rparr>)
                     | Undefined \<Rightarrow> Undefined)
                  else Undefined)))"

definition PushBack_copy :: "'a traits \<Rightarrow> 'a \<Rightarrow> 'a Vector \<Rightarrow> (nat, 'a Vector) outcome" where
  "PushBack_copy T val v = EmplaceBack T (copy_of T val) v"

definition PushBack_move :: "'a traits \<Rightarrow> 'a \<Rightarrow> 'a Vector \<Rightarrow> (nat, 'a Vector) outcome" where
  "PushBack_move T val v = EmplaceBack T (move_of T val) v"

definition PopBack :: "'a Vector \<Rightarrow> (unit, 'a Vector) outcome" where
  "PopBack v =
     (if size_v v = 0 then Undefined
      else
        (case Destroy (size_v v - 1) (data_v v) of
           Returns r b \<Rightarrow> Returns () (v\<lparr>data_v := b, size_v := size_v v - 1\<rparr>)
         | Throws e b \<Rightarrow> Throws e (v\<lparr>data_v := b\<rparr>)
         | Undefined \<Rightarrow> Undefined))"

text \<open>
  \<^verbatim>\<open>Emplace(pos, args...)\<close> with \<open>idx = pos - begin()\<close>; \<open>ctor\<close> as for
  \<^verbatim>\<open>EmplaceBack\<close>. The returned iterator is given as its index. Neither handler of
  the growth branch ends in \<^verbatim>\<open>throw;\<close>, so after a handler the function goes on
  with the statement that follows it.
\<close>

definition Emplace :: "'a traits \<Rightarrow> nat \<Rightarrow> 'a option \<Rightarrow> 'a Vector \<Rightarrow> (nat, 'a Vector) outcome" where
  "Emplace T idx ctor v =
     (if size_v v \<noteq> Capacity v then
        (if size_v v > 0 then
           (case ctor of
              None \<Rightarrow> Throws ElementFailure v
            | Some obj \<Rightarrow>
                (case MoveConstruct_same T (size_v v) (size_v v - 1) (data_v v) of
                   Returns r b1 \<Rightarrow>
                     (if idx + 1 < size_v v then
                        (case and_then (move_backward T idx (size_v v - 1) (size_v v) b1)
                                (MoveAssign_value T idx obj) of
                           Returns r b2 \<Rightarrow>
                             Returns idx (v\<lparr>data_v := b2, size_v := size_v v + 1\<rparr>)
                         | Throws e b2 \<Rightarrow> Throws e (v\<lparr>data_v := b2\<rparr>)
                         | Undefined \<Rightarrow> Undefined)
                      else Returns idx (v\<lparr>data_v := b1, size_v := size_v v + 1\<rparr>))
                 | Throws e b1 \<Rightarrow> Throws e (v\<lparr>data_v := b1\<rparr>)
                 | Undefined \<Rightarrow> Undefined))
         else
           (case ctor of
              None \<Rightarrow> Throws ElementFailure v
            | Some x \<Rightarrow>
                if idx < length (data_v v)
                then Returns idx
                       (v\<lparr>data_v := (data_v v)[idx := Some x], size_v := size_v v + 1\<rparr>)
                else Undefined))
      else
        (case new_RawMemory T (if size_v v = 0 then 1 else size_v v * 2) of
           Inl e \<Rightarrow> Throws e v
         | Inr new_data \<Rightarrow>
             (case ctor of
                None \<Rightarrow> Throws ElementFailure v
              | Some x \<Rightarrow>
                  if idx < length new_data then
                    (case and_then
                            (and_then
                               (try_catch
                                  (relocate T 0 [0..<idx] (new_data[idx := Some x], data_v v))
                                  (Destroy_new idx))
                               (\<lambda>s. try_catch
                                  (relocate T 1 [idx..<size_v v] s)
                                  (DestroyN_new (idx + 1))))
                            (DestroyN_old (size_v v)) of
                       Returns r s \<Rightarrow>
                         Returns idx
                           \<lparr>data_v = fst s,
                            capacity_v = (if size_v v = 0 then 1 else size_v v * 2),
                            size_v = size_v v + 1\<rparr>
                     | Throws e s \<Rightarrow> Throws e (v\<lparr>data_v := snd s\<rparr>)
                     | Undefined \<Rightarrow> Undefined)
                  else Undefined)))"

definition Insert_copy :: "'a traits \<Rightarrow> nat \<Rightarrow> 'a \<Rightarrow> 'a Vector \<Rightarrow> (nat, 'a Vector) outcome" where
  "Insert_copy T pos val v = Emplace T pos (copy_of T val) v"

definition Insert_move :: "'a traits \<Rightarrow> nat \<Rightarrow> 'a \<Rightarrow> 'a Vector \<Rightarrow> (nat, 'a Vector) outcome" where
  "Insert_move T pos val v = Emplace T pos (move_of T val) v"

text \<open>\<^verbatim>\<open>Erase(pos)\<close> with \<open>idx = pos - begin()\<close>:
  \<^verbatim>\<open>Destroy(std::move(begin() + id + 1, end(), begin() + id)); --size_;\<close>.\<close>

definition Erase :: "'a traits \<Rightarrow> nat \<Rightarrow> 'a Vector \<Rightarrow> (nat, 'a Vector) outcome" where
  "Erase T idx v =
     (case move_range T (idx + 1) (size_v v) idx (data_v v) of
        Returns r b \<Rightarrow>
          (case Destroy r b of
             Returns u b' \<Rightarrow> Returns idx (v\<lparr>data_v := b', size_v := size_v v - 1\<rparr>)
           | Throws e b' \<Rightarrow> Throws e (v\<lparr>data_v := b'\<rparr>)
           | Undefined \<Rightarrow> Undefined)
      | Throws e b \<Rightarrow> Throws e (v\<lparr>data_v := b\<rparr>)
      | Undefined \<Rightarrow> Undefined)"

subsection \<open>Member functions on two vectors\<close>

text \<open>\<^verbatim>\<open>Swap(other)\<close> on two distinct objects: \<^verbatim>\<open>data_.Swap(other.data_)\<close>
  exchanges \<^verbatim>\<open>buffer_\<close> and \<^verbatim>\<open>capacity_\<close>, and
  \<^verbatim>\<open>std::swap(size_, other.size_)\<close> the counts. The result is
  \<open>(*this, other)\<close>.\<close>

definition Swap :: "'a Vector \<Rightarrow> 'a Vector \<Rightarrow> 'a Vector \<times> 'a Vector" where
  "Swap this other =
     (let this1 = this\<lparr>data_v := data_v other, capacity_v := capacity_v other\<rparr>;
          other1 = other\<lparr>data_v := data_v this, capacity_v := capacity_v this\<rparr>;
          this2 = this1\<lparr>size_v := size_v other1\<rparr>;
          other2 = other1\<lparr>size_v := size_v this1\<rparr>
      in (this2, other2))"

text \<open>
  The body of \<^verbatim>\<open>operator=(const Vector& rhs)\<close> under \<^verbatim>\<open>this != &rhs\<close>; \<open>rhs\<close>
  is not modified. In the last branch the local \<^verbatim>\<open>rhs_copy\<close> holds the former
  contents of \<^verbatim>\<open>*this\<close> after the swap and is destroyed at the end of the block.
\<close>

definition copy_assign_from :: "'a traits \<Rightarrow> 'a Vector \<Rightarrow> 'a Vector \<Rightarrow> (unit, 'a Vector) outcome" where
  "copy_assign_from T this rhs =
     (if Capacity this \<ge> size_v rhs then
        (if size_v rhs < size_v this then
           (case and_then
                   (for_each (CopyAssign T) [0..<size_v rhs] (data_v this, data_v rhs))
                   (for_each Destroy_new [size_v rhs..<size_v this]) of
              Returns r s \<Rightarrow> Returns () (this\<lparr>data_v := fst s, size_v := size_v rhs\<rparr>)
            | Throws e s \<Rightarrow> Throws e (this\<lparr>data_v := fst s\<rparr>)
            | Undefined \<Rightarrow> Undefined)
         else
           (case and_then
                   (for_each (CopyAssign T) [0..<size_v this] (data_v this, data_v rhs))
                   (uninitialized_copy T (size_v this) (size_v rhs)) of
              Returns r s \<Rightarrow> Returns () (this\<lparr>data_v := fst s, size_v := size_v rhs\<rparr>)
            | Throws e s \<Rightarrow> Throws e (this\<lparr>data_v := fst s\<rparr>)
            | Undefined \<Rightarrow> Undefined))
      else
        (case Vector_copy T rhs of
           Returns rhs_copy u \<Rightarrow>
             (case Swap this rhs_copy of
                (this', rhs_copy') \<Rightarrow>
                  (case Vector_dtor rhs_copy' of
                     Returns r b \<Rightarrow> Returns () this'
                   | Throws e b \<Rightarrow> Undefined
                   | Undefined \<Rightarrow> Undefined))
         | Throws e u \<Rightarrow> Throws e this
         | Undefined \<Rightarrow> Undefined))"

text \<open>
  The assignment operators and \<^verbatim>\<open>Swap\<close> take references, which may name the same
  object: the objects live in a store, from addresses to vectors, and the operators take
  the addresses \<open>this\<close> and \<open>rhs\<close>.
\<close>

type_synonym 'a objects = "nat \<Rightarrow> 'a Vector"

definition Swap_at :: "nat \<Rightarrow> nat \<Rightarrow> 'a objects \<Rightarrow> 'a objects" where
  "Swap_at this other \<sigma> =
     (let \<sigma>1 = \<sigma>(this := (\<sigma> this)\<lparr>data_v := data_v (\<sigma> other),
                                        capacity_v := capacity_v (\<sigma> other)\<rparr>,
                 other := (\<sigma> other)\<lparr>data_v := data_v (\<sigma> this),
                                         capacity_v := capacity_v (\<sigma> this)\<rparr>)
      in \<sigma>1(this := (\<sigma>1 this)\<lparr>size_v := size_v (\<sigma>1 other)\<rparr>,
             other := (\<sigma>1 other)\<lparr>size_v := size_v (\<sigma>1 this)\<rparr>))"

text \<open>\<^verbatim>\<open>operator=(Vector&& rhs)\<close>: \<^verbatim>\<open>Swap(rhs); return *this;\<close>.\<close>

definition move_assign :: "nat \<Rightarrow> nat \<Rightarrow> 'a objects \<Rightarrow> 'a objects" where
  "move_assign this rhs \<sigma> = Swap_at this rhs \<sigma>"

text \<open>\<^verbatim>\<open>operator=(const Vector& rhs)\<close>.\<close>

definition copy_assign :: "'a traits \<Rightarrow> nat \<Rightarrow> nat \<Rightarrow> 'a objects \<Rightarrow> (unit, 'a objects) outcome" where
  "copy_assign T this rhs \<sigma> =
     (if this \<noteq> rhs then
        (case copy_assign_from T (\<sigma> this) (\<sigma> rhs) of
           Returns r v \<Rightarrow> Returns () (\<sigma>(this := v))
         | Throws e v \<Rightarrow> Throws e (\<sigma>(this := v))
         | Undefined \<Rightarrow> Undefined)
      else Returns () \<sigma>)"

subsection \<open>The representation invariant and the element sequence\<close>

text \<open>The invariant as the data model states it: the size is at most the capacity,
  the slots below the size hold an object each, the slots from the size on hold none.\<close>

definition live_prefix :: "'a Vector \<Rightarrow> bool" where
  "live_prefix v =
     (size_v v \<le> Capacity v
      \<and> list_all (\<lambda>slot. slot \<noteq> None) (take (size_v v) (data_v v))
      \<and> list_all (\<lambda>slot. slot = None) (drop (size_v v) (data_v v)))"

text \<open>
  The block \<open>b\<close> is storage for \<open>n\<close> objects of type \<^verbatim>\<open>T\<close>: it has \<open>n\<close> slots,
  and their \<open>n * sizeof(T)\<close> bytes are an amount \<^verbatim>\<open>operator new\<close> supplies
  (\<^verbatim>\<open>sizeof(T)\<close> is at least 1).
\<close>

definition storage_for :: "'a traits \<Rightarrow> nat \<Rightarrow> 'a block \<Rightarrow> bool" where
  "storage_for T n b =
     (length b = n \<and> 0 < size_of T \<and> int n * int (size_of T) < 2 ^ 63)"

text \<open>A vector as it exists in memory: its block is storage for \<^verbatim>\<open>capacity_\<close> objects,
  a prefix of which is live.\<close>

definition vector_inv :: "'a traits \<Rightarrow> 'a Vector \<Rightarrow> bool" where
  "vector_inv T v = (storage_for T (capacity_v v) (data_v v) \<and> live_prefix v)"

text \<open>The live prefix of the block, slot by slot.\<close>

definition elements :: "'a Vector \<Rightarrow> 'a option list" where
  "elements v = take (size_v v) (data_v v)"

subsection \<open>Sequences of appends\<close>

text \<open>Relocating the value \<open>x\<close> during a growth cycle does not throw.\<close>

definition can_relocate :: "'a traits \<Rightarrow> 'a \<Rightarrow> bool" where
  "can_relocate T x = (if relocates_by_move T then move_of T x = Some x else \<not> copy_throws T x)"

text \<open>The three ways to append: \<^verbatim>\<open>PushBack(const T&)\<close>, \<^verbatim>\<open>PushBack(T&&)\<close>, and
  \<^verbatim>\<open>EmplaceBack(args...)\<close> with what the constructor does on these arguments.\<close>

datatype 'a append_op = PushBack_const 'a | PushBack_rvalue 'a | EmplaceBack_with "'a option"

fun append_to :: "'a traits \<Rightarrow> 'a append_op \<Rightarrow> 'a Vector \<Rightarrow> (nat, 'a Vector) outcome" where
  "append_to T (PushBack_const x) v = PushBack_copy T x v"
| "append_to T (PushBack_rvalue x) v = PushBack_move T x v"
| "append_to T (EmplaceBack_with c) v = EmplaceBack T c v"

text \<open>The element an append builds; \<open>None\<close> when its constructor throws.\<close>

fun builds :: "'a traits \<Rightarrow> 'a append_op \<Rightarrow> 'a option" where
  "builds T (PushBack_const x) = copy_of T x"
| "builds T (PushBack_rvalue x) = move_of T x"
| "builds T (EmplaceBack_with c) = c"

text \<open>One append after the other; an exception ends the sequence.\<close>

fun appends :: "'a traits \<Rightarrow> 'a append_op list \<Rightarrow> 'a Vector \<Rightarrow> (unit, 'a Vector) outcome" where
  "appends T [] v = Returns () v"
| "appends T (a # as) v =
     (case append_to T a v of
        Returns r v' \<Rightarrow> appends T as v'
      | Throws e v' \<Rightarrow> Throws e v'
      | Undefined \<Rightarrow> Undefined)"

text \<open>The value of \<^verbatim>\<open>Capacity()\<close> observed after each append of the sequence that
  returned.\<close>

fun capacities :: "'a traits \<Rightarrow> 'a append_op list \<Rightarrow> 'a Vector \<Rightarrow> nat list" where
  "capacities T [] v = []"
| "capacities T (a # as) v =
     (case append_to T a v of
        Returns r v' \<Rightarrow> Capacity v' # capacities T as v'
      | Throws e v' \<Rightarrow> []
      | Undefined \<Rightarrow> [])"

text \<open>
  The growth law in the words of the specification: the capacity after \<open>k\<close> appends
  to an empty container, where an append that finds the container full (as many elements
  as capacity) sets the capacity to \<open>max(1, 2 \<times> capacity)\<close> and any other append leaves
  it alone.
\<close>

fun doubling :: "nat \<Rightarrow> nat" where
  "doubling 0 = 0"
| "doubling (Suc k) = (if k < doubling k then doubling k else max 1 (2 * doubling k))"

subsection \<open>Concrete element types and vectors\<close>

text \<open>\<^verbatim>\<open>int\<close>: four bytes, nothing throws; a moved-from \<^verbatim>\<open>int\<close> keeps its value.\<close>

definition int_traits :: "int traits" where
  "int_traits = \<lparr>is_copy_constructible = True, is_nothrow_move_constructible = True,
     copy_throws = (\<lambda>x. False), move_throws = (\<lambda>x. False), moved_from = (\<lambda>x. x),
     copy_assign_throws = (\<lambda>x. False), move_assign_throws = (\<lambda>x. False),
     default_value = 0, default_throws = (\<lambda>i. False), size_of = 4,
     alloc_throws = (\<lambda>n. False)\<rparr>"


text \<open>\<^verbatim>\<open>int\<close>-like, with a move constructor that is not \<^verbatim>\<open>noexcept\<close>: its elements
  are relocated by copy, and no copy throws.\<close>

definition copied_int_traits :: "int traits" where
  "copied_int_traits = int_traits\<lparr>is_nothrow_move_constructible := False\<rparr>"

text \<open>A type whose copy constructor always throws and whose move constructor is not
  \<^verbatim>\<open>noexcept\<close> (and happens not to throw).\<close>

definition copy_always_throws :: "int traits" where
  "copy_always_throws =
     int_traits\<lparr>is_nothrow_move_constructible := False, copy_throws := (\<lambda>x. True)\<rparr>"

text \<open>The same with a copy constructor that throws on the value 13 only.\<close>

definition copy_throws_on_13 :: "int traits" where
  "copy_throws_on_13 =
     int_traits\<lparr>is_nothrow_move_constructible := False, copy_throws := (\<lambda>x. x = 13)\<rparr>"

text \<open>A store with two vectors, at the addresses 0 and 1.\<close>

definition two_vectors :: "int objects" where
  "two_vectors =
     (\<lambda>p. Vector_default)
       (0 := \<lparr>data_v = [Some 1, Some 2, None], capacity_v = 3, size_v = 2\<rparr>,
        1 := \<lparr>data_v = [Some 7], capacity_v = 1, size_v = 1\<rparr>)"

section \<open>Theorems about RawMemory\<close>

lemma swap_lifetime_history:
  "swap_lifetime =
     Inr \<lparr>fresh = 2, history = [Allocated 0, Allocated 1, Released 0, Released 1]\<rparr>"
  by (simp add: swap_lifetime_def RawMemory_ctor_def Allocate_def empty_heap_def
      RawMemory_Swap_def RawMemory_dtor_def Deallocate_def)

text \<open>
  C3 (the code departs from the claim). Both blocks obtain a region (addresses 0 and 1);
  after the move assignment and both destructors the region 1 has been released once and
  the region 0, which the target owned before the assignment, has never been released.
\<close>

theorem C3_move_assign_leaks_target_region:
  "move_assign_lifetime =
     Inr \<lparr>fresh = 2, history = [Allocated 0, Allocated 1, Released 1]\<rparr>
   \<and> map_sum id (\<lambda>h. (allocated_count 0 h, released_count 0 h, released_count 1 h))
         move_assign_lifetime = Inr (1, 0, 1)"
  by (simp add: move_assign_lifetime_def RawMemory_ctor_def Allocate_def empty_heap_def
      RawMemory_move_assign_def RawMemory_dtor_def Deallocate_def
      allocated_count_def released_count_def)

section \<open>Loops over slots\<close>

lemma for_each_append:
  "for_each body (xs @ ys) s = and_then (for_each body xs s) (for_each body ys)"
  by (induction xs arbitrary: s) (auto simp: and_then_def split: outcome.splits)

lemma guarded_Returns_iff:
  "guarded c d done is s = Returns r s' \<longleftrightarrow> for_each c is s = Returns r s'"
  by (induction "is" arbitrary: "done" s) (auto split: outcome.splits)

lemma Destroy_Returns:
  "Destroy i b = Returns r b' \<Longrightarrow> i < length b \<and> b ! i \<noteq> None \<and> b' = b[i := None]"
  by (auto simp: Destroy_def split: if_splits)

lemma Destroy_not_Throws: "Destroy i b \<noteq> Throws e b'"
  by (auto simp: Destroy_def)

lemma for_each_Destroy_Returns:
  "for_each Destroy is b = Returns r b' \<Longrightarrow>
     length b' = length b \<and> (\<forall>i\<in>set is. i < length b \<and> b ! i \<noteq> None)
     \<and> (\<forall>j<length b. b' ! j = (if j \<in> set is then None else b ! j))"
proof (induction "is" arbitrary: b)
  case Nil
  then show ?case by simp
next
  case (Cons i "is")
  from Cons.prems obtain b1 where d: "Destroy i b = Returns () b1"
    and rest: "for_each Destroy is b1 = Returns r b'"
    by (auto split: outcome.splits)
  from d have b1: "i < length b" "b ! i \<noteq> None" "b1 = b[i := None]"
    using Destroy_Returns by blast+
  from Cons.IH[OF rest] have ih: "length b' = length b1"
    "\<forall>k\<in>set is. k < length b1 \<and> b1 ! k \<noteq> None"
    "\<forall>j<length b1. b' ! j = (if j \<in> set is then None else b1 ! j)"
    by blast+
  have live: "\<forall>k\<in>set is. k < length b \<and> b ! k \<noteq> None"
  proof
    fix k assume "k \<in> set is"
    with ih(2) b1(3) have "k < length b" "(b[i := None]) ! k \<noteq> None" by auto
    then show "k < length b \<and> b ! k \<noteq> None" by (cases "k = i") auto
  qed
  have nth: "\<forall>j<length b. b' ! j = (if j \<in> set (i # is) then None else b ! j)"
    using ih(3) b1 by (auto simp: nth_list_update)
  show ?case using b1 ih(1) live nth by simp
qed

lemma for_each_Destroy_not_Throws: "for_each Destroy is b \<noteq> Throws e b'"
  by (induction "is" arbitrary: b) (auto simp: Destroy_not_Throws split: outcome.splits)

lemma for_each_Destroy_total:
  "distinct is \<Longrightarrow> \<forall>i\<in>set is. i < length b \<and> b ! i \<noteq> None \<Longrightarrow>
     \<exists>b'. for_each Destroy is b = Returns () b'"
proof (induction "is" arbitrary: b)
  case Nil
  then show ?case by simp
next
  case (Cons i "is")
  have d: "Destroy i b = Returns () (b[i := None])"
    using Cons.prems by (simp add: Destroy_def)
  have "\<forall>k\<in>set is. k < length (b[i := None]) \<and> (b[i := None]) ! k \<noteq> None"
    using Cons.prems by (auto simp: nth_list_update)
  with Cons.IH[of "b[i := None]"] Cons.prems d show ?case by auto
qed

lemma CopyConstruct_Returns:
  "CopyConstruct T j i s = Returns r s' \<Longrightarrow>
     i < length (snd s) \<and> j < length (fst s) \<and>
     (\<exists>x. snd s ! i = Some x \<and> \<not> copy_throws T x \<and> s' = ((fst s)[j := Some x], snd s))"
  by (cases s) (auto simp: CopyConstruct_def copy_of_def split: if_splits option.splits)

lemma MoveConstruct_Returns:
  "MoveConstruct T j i s = Returns r s' \<Longrightarrow>
     i < length (snd s) \<and> j < length (fst s) \<and>
     (\<exists>x. snd s ! i = Some x \<and> move_of T x = Some x
          \<and> s' = ((fst s)[j := Some x], (snd s)[i := Some (moved_from T x)]))"
  by (cases s) (auto simp: MoveConstruct_def move_of_def split: if_splits option.splits)

lemma transfer_loop_Returns:
  assumes step: "\<And>i s r s'. body i s = Returns r s' \<Longrightarrow>
       i < length (snd s) \<and> i + off < length (fst s) \<and> snd s ! i \<noteq> None
       \<and> fst s' = (fst s)[i + off := snd s ! i] \<and> length (snd s') = length (snd s)
       \<and> (\<forall>j. j \<noteq> i \<longrightarrow> snd s' ! j = snd s ! j) \<and> snd s' ! i \<noteq> None"
    and run: "for_each body is s = Returns r s'"
    and dist: "distinct is"
  shows "length (fst s') = length (fst s) \<and> length (snd s') = length (snd s)
     \<and> (\<forall>i\<in>set is. i < length (snd s) \<and> snd s ! i \<noteq> None \<and> i + off < length (fst s))
     \<and> (\<forall>j<length (fst s). fst s' ! j =
            (if off \<le> j \<and> j - off \<in> set is then snd s ! (j - off) else fst s ! j))
     \<and> (\<forall>j. (snd s' ! j \<noteq> None) = (snd s ! j \<noteq> None))
     \<and> (\<forall>j. j \<notin> set is \<longrightarrow> snd s' ! j = snd s ! j)"
  using run dist
proof (induction "is" arbitrary: s)
  case Nil
  then show ?case by simp
next
  case (Cons i "is")
  from Cons.prems(1) obtain s1 where b: "body i s = Returns () s1"
    and rest: "for_each body is s1 = Returns r s'"
    by (auto split: outcome.splits)
  from Cons.prems(2) have ni: "i \<notin> set is" and d: "distinct is" by auto
  note st = step[OF b]
  note ih = Cons.IH[OF rest d]
  have len1: "length (fst s1) = length (fst s)" "length (snd s1) = length (snd s)"
    using st by auto
  have same: "\<And>k. k \<in> set is \<Longrightarrow> snd s1 ! k = snd s ! k"
    using st ni by auto
  have c1: "length (fst s') = length (fst s)" "length (snd s') = length (snd s)"
    using ih len1 by auto
  have c2: "\<forall>k\<in>set (i # is). k < length (snd s) \<and> snd s ! k \<noteq> None \<and> k + off < length (fst s)"
    using st ih len1 same by auto
  have c3: "\<forall>j<length (fst s). fst s' ! j =
            (if off \<le> j \<and> j - off \<in> set (i # is) then snd s ! (j - off) else fst s ! j)"
  proof (intro allI impI)
    fix j assume j: "j < length (fst s)"
    then have e: "fst s' ! j =
        (if off \<le> j \<and> j - off \<in> set is then snd s1 ! (j - off) else fst s1 ! j)"
      using ih len1 by auto
    show "fst s' ! j =
            (if off \<le> j \<and> j - off \<in> set (i # is) then snd s ! (j - off) else fst s ! j)"
    proof (cases "off \<le> j \<and> j - off \<in> set is")
      case True
      then show ?thesis using e same by auto
    next
      case False
      then have "fst s' ! j = ((fst s)[i + off := snd s ! i]) ! j" using e st by auto
      then show ?thesis using False j by (auto simp: nth_list_update)
    qed
  qed
  have c4: "\<forall>j. (snd s' ! j \<noteq> None) = (snd s ! j \<noteq> None)"
  proof
    fix j
    have "(snd s' ! j \<noteq> None) = (snd s1 ! j \<noteq> None)" using ih by blast
    also have "\<dots> = (snd s ! j \<noteq> None)" using st by (cases "j = i") auto
    finally show "(snd s' ! j \<noteq> None) = (snd s ! j \<noteq> None)" .
  qed
  have c5: "\<forall>j. j \<notin> set (i # is) \<longrightarrow> snd s' ! j = snd s ! j"
    using ih st by auto
  show ?case using c1 c2 c3 c4 c5 by blast
qed

lemma CopyConstruct_step:
  "CopyConstruct T (i + off) i s = Returns r s' \<Longrightarrow>
       i < length (snd s) \<and> i + off < length (fst s) \<and> snd s ! i \<noteq> None
       \<and> fst s' = (fst s)[i + off := snd s ! i] \<and> length (snd s') = length (snd s)
       \<and> (\<forall>j. j \<noteq> i \<longrightarrow> snd s' ! j = snd s ! j) \<and> snd s' ! i \<noteq> None"
  by (drule CopyConstruct_Returns) auto

lemma MoveConstruct_step:
  "MoveConstruct T (i + off) i s = Returns r s' \<Longrightarrow>
       i < length (snd s) \<and> i + off < length (fst s) \<and> snd s ! i \<noteq> None
       \<and> fst s' = (fst s)[i + off := snd s ! i] \<and> length (snd s') = length (snd s)
       \<and> (\<forall>j. j \<noteq> i \<longrightarrow> snd s' ! j = snd s ! j) \<and> snd s' ! i \<noteq> None"
  by (drule MoveConstruct_Returns) auto

lemma relocate_Returns:
  assumes "relocate T off is s = Returns r s'" "distinct is"
  shows "length (fst s') = length (fst s) \<and> length (snd s') = length (snd s)
     \<and> (\<forall>i\<in>set is. i < length (snd s) \<and> snd s ! i \<noteq> None \<and> i + off < length (fst s))
     \<and> (\<forall>j<length (fst s). fst s' ! j =
            (if off \<le> j \<and> j - off \<in> set is then snd s ! (j - off) else fst s ! j))
     \<and> (\<forall>j. (snd s' ! j \<noteq> None) = (snd s ! j \<noteq> None))
     \<and> (\<forall>j. j \<notin> set is \<longrightarrow> snd s' ! j = snd s ! j)"
proof (cases "relocates_by_move T")
  case True
  with assms(1) have "for_each (\<lambda>i. MoveConstruct T (i + off) i) is s = Returns r s'"
    by (simp add: relocate_def)
  from transfer_loop_Returns[where body = "\<lambda>i. MoveConstruct T (i + off) i", OF MoveConstruct_step this assms(2)]
  show ?thesis .
next
  case False
  with assms(1) have "for_each (\<lambda>i. CopyConstruct T (i + off) i) is s = Returns r s'"
    by (simp add: relocate_def)
  from transfer_loop_Returns[where body = "\<lambda>i. CopyConstruct T (i + off) i", OF CopyConstruct_step this assms(2)]
  show ?thesis .
qed

lemma transfer_loop_total:
  assumes step: "\<And>i s. i < length (snd s) \<Longrightarrow> i + off < length (fst s) \<Longrightarrow> snd s ! i \<noteq> None \<Longrightarrow>
       \<exists>s'. body i s = Returns () s' \<and> length (fst s') = length (fst s)
          \<and> length (snd s') = length (snd s) \<and> (\<forall>j. j \<noteq> i \<longrightarrow> snd s' ! j = snd s ! j)"
    and dist: "distinct is"
    and ok: "\<forall>i\<in>set is. i < length (snd s) \<and> i + off < length (fst s) \<and> snd s ! i \<noteq> None"
  shows "\<exists>s'. for_each body is s = Returns () s'"
  using dist ok
proof (induction "is" arbitrary: s)
  case Nil
  then show ?case by simp
next
  case (Cons i "is")
  from Cons.prems have "i < length (snd s)" "i + off < length (fst s)" "snd s ! i \<noteq> None"
    by auto
  from step[OF this] obtain s1 where s1: "body i s = Returns () s1"
    "length (fst s1) = length (fst s)" "length (snd s1) = length (snd s)"
    "\<forall>j. j \<noteq> i \<longrightarrow> snd s1 ! j = snd s ! j" by blast
  from Cons.prems have "i \<notin> set is" "distinct is" by auto
  then have "\<forall>k\<in>set is. k < length (snd s1) \<and> k + off < length (fst s1) \<and> snd s1 ! k \<noteq> None"
    using Cons.prems(2) s1 by auto
  from Cons.IH[OF \<open>distinct is\<close> this] s1(1) show ?case by auto
qed

lemma relocate_total:
  assumes "\<forall>x. can_relocate T x" "distinct is"
    "\<forall>i\<in>set is. i < length (snd s) \<and> i + off < length (fst s) \<and> snd s ! i \<noteq> None"
  shows "\<exists>s'. relocate T off is s = Returns () s'"
proof (cases "relocates_by_move T")
  case True
  have "\<exists>s'. for_each (\<lambda>i. MoveConstruct T (i + off) i) is s = Returns () s'"
  proof (rule transfer_loop_total[where off = off, OF _ assms(2,3)])
    fix i and s :: "'a block \<times> 'a block"
    assume a: "i < length (snd s)" "i + off < length (fst s)" "snd s ! i \<noteq> None"
    then obtain x where x: "snd s ! i = Some x" by auto
    from assms(1) True have "move_of T x = Some x" by (auto simp: can_relocate_def)
    with a x show "\<exists>s'. MoveConstruct T (i + off) i s = Returns () s' \<and> length (fst s') = length (fst s)
          \<and> length (snd s') = length (snd s) \<and> (\<forall>j. j \<noteq> i \<longrightarrow> snd s' ! j = snd s ! j)"
      by (cases s) (auto simp: MoveConstruct_def)
  qed
  with True show ?thesis by (simp add: relocate_def)
next
  case False
  have "\<exists>s'. for_each (\<lambda>i. CopyConstruct T (i + off) i) is s = Returns () s'"
  proof (rule transfer_loop_total[where off = off, OF _ assms(2,3)])
    fix i and s :: "'a block \<times> 'a block"
    assume a: "i < length (snd s)" "i + off < length (fst s)" "snd s ! i \<noteq> None"
    then obtain x where x: "snd s ! i = Some x" by auto
    from assms(1) False have "copy_of T x = Some x" by (auto simp: can_relocate_def copy_of_def)
    with a x show "\<exists>s'. CopyConstruct T (i + off) i s = Returns () s' \<and> length (fst s') = length (fst s)
          \<and> length (snd s') = length (snd s) \<and> (\<forall>j. j \<noteq> i \<longrightarrow> snd s' ! j = snd s ! j)"
      by (cases s) (auto simp: CopyConstruct_def)
  qed
  with False show ?thesis by (simp add: relocate_def)
qed

lemma DestroyN_old_Returns:
  "DestroyN_old n s = Returns r s' \<Longrightarrow> fst s' = fst s \<and> DestroyN n (snd s) = Returns () (snd s')"
  by (auto simp: DestroyN_old_def split: outcome.splits)

lemma DestroyN_old_not_Throws: "DestroyN_old n s \<noteq> Throws e s'"
  by (auto simp: DestroyN_old_def DestroyN_def for_each_Destroy_not_Throws split: outcome.splits)

lemma DestroyN_old_total:
  "\<forall>i<n. i < length (snd s) \<and> snd s ! i \<noteq> None \<Longrightarrow> \<exists>s'. DestroyN_old n s = Returns () s'"
  using for_each_Destroy_total[of "[0..<n]" "snd s"]
  by (auto simp: DestroyN_old_def DestroyN_def)

section \<open>Blocks and the invariant\<close>

lemma live_prefix_iff:
  "live_prefix v \<longleftrightarrow> size_v v \<le> capacity_v v
     \<and> (\<forall>j<length (data_v v). (data_v v ! j \<noteq> None) = (j < size_v v))"
proof -
  have a: "list_all (\<lambda>slot. slot \<noteq> None) (take (size_v v) (data_v v)) \<longleftrightarrow>
      (\<forall>j<length (data_v v). j < size_v v \<longrightarrow> data_v v ! j \<noteq> None)"
    by (auto simp: list_all_length)
  have b: "list_all (\<lambda>slot. slot = None) (drop (size_v v) (data_v v)) \<longleftrightarrow>
      (\<forall>j<length (data_v v). size_v v \<le> j \<longrightarrow> data_v v ! j = None)"
  proof
    assume l: "list_all (\<lambda>slot. slot = None) (drop (size_v v) (data_v v))"
    show "\<forall>j<length (data_v v). size_v v \<le> j \<longrightarrow> data_v v ! j = None"
    proof (intro allI impI)
      fix j assume j: "j < length (data_v v)" "size_v v \<le> j"
      then have "j - size_v v < length (drop (size_v v) (data_v v))" by auto
      with l have "drop (size_v v) (data_v v) ! (j - size_v v) = None"
        by (simp add: list_all_length)
      with j show "data_v v ! j = None" by simp
    qed
  next
    assume "\<forall>j<length (data_v v). size_v v \<le> j \<longrightarrow> data_v v ! j = None"
    then show "list_all (\<lambda>slot. slot = None) (drop (size_v v) (data_v v))"
      by (auto simp: list_all_length)
  qed
  show ?thesis unfolding live_prefix_def Capacity_def a b
    by (metis linorder_not_less)
qed

lemma vector_inv_iff:
  "vector_inv T v \<longleftrightarrow>
     length (data_v v) = capacity_v v \<and> 0 < size_of T
     \<and> int (capacity_v v) * int (size_of T) < 2 ^ 63
     \<and> size_v v \<le> length (data_v v)
     \<and> (\<forall>j<length (data_v v). (data_v v ! j \<noteq> None) = (j < size_v v))"
  unfolding vector_inv_def storage_for_def live_prefix_iff by auto

lemma slots_le:
  assumes "0 < s"
  shows "nat ((int n * int s) mod 2 ^ 64 div int s) \<le> n"
proof -
  have "(int n * int s) mod 2 ^ 64 \<le> int n * int s"
    by (rule zmod_le_nonneg_dividend) simp
  then have "(int n * int s) mod 2 ^ 64 div int s \<le> int n * int s div int s"
    using assms by (intro zdiv_mono1) simp_all
  also have "\<dots> = int n" using assms by simp
  finally show ?thesis by simp
qed

lemma new_RawMemory_Inr:
  assumes "new_RawMemory T n = Inr d"
  shows "d = replicate (length d) None \<and> length d \<le> n"
proof (cases "n = 0")
  case True
  with assms show ?thesis by (simp add: new_RawMemory_def)
next
  case False
  with assms have d: "d = replicate (nat (bytes_requested T n div int (size_of T))) None"
    by (auto simp: new_RawMemory_def split: if_splits)
  have "nat (bytes_requested T n div int (size_of T)) \<le> n"
  proof (cases "size_of T = 0")
    case True
    then show ?thesis by simp
  next
    case False
    then show ?thesis unfolding bytes_requested_def by (intro slots_le) simp
  qed
  with d show ?thesis by simp
qed

text \<open>A request whose byte count does not wrap around is answered with a block for
  exactly the slots asked for, or not at all.\<close>

lemma new_RawMemory_no_wrap:
  assumes "new_RawMemory T n = Inr d" "0 < size_of T" "int n * int (size_of T) < 2 ^ 64"
  shows "d = replicate n None \<and> storage_for T n d"
proof (cases "n = 0")
  case True
  with assms show ?thesis by (simp add: new_RawMemory_def storage_for_def)
next
  case False
  have b: "bytes_requested T n = int n * int (size_of T)"
    unfolding bytes_requested_def using assms(3) by (intro mod_pos_pos_trivial) simp_all
  from assms(1) False have lim: "\<not> 2 ^ 63 \<le> bytes_requested T n"
    and d: "d = replicate (nat (bytes_requested T n div int (size_of T))) None"
    by (auto simp: new_RawMemory_def split: if_splits)
  have "nat (bytes_requested T n div int (size_of T)) = n"
    unfolding b using assms(2) by simp
  with d lim b assms(2) show ?thesis by (simp add: storage_for_def)
qed

text \<open>A block that has room for all the slots asked for is storage for them.\<close>

lemma new_RawMemory_storage:
  assumes "new_RawMemory T n = Inr d" "0 < size_of T" "n \<le> length d"
  shows "d = replicate n None \<and> storage_for T n d"
proof (cases "n = 0")
  case True
  with assms show ?thesis by (simp add: new_RawMemory_def storage_for_def)
next
  case False
  from assms(1) False have
    d: "d = replicate (nat (bytes_requested T n div int (size_of T))) None"
    by (auto simp: new_RawMemory_def split: if_splits)
  from assms(3) have "n \<le> nat (bytes_requested T n div int (size_of T))"
    by (subst (asm) d) simp
  with False have "int n \<le> bytes_requested T n div int (size_of T)" by linarith
  then have "int n * int (size_of T) \<le> bytes_requested T n div int (size_of T) * int (size_of T)"
    by (intro mult_right_mono) simp_all
  also have "\<dots> \<le> bytes_requested T n"
    using assms(2) by (simp add: minus_mod_eq_div_mult[symmetric])
  also have "\<dots> < 2 ^ 64" unfolding bytes_requested_def by simp
  finally have "int n * int (size_of T) < 2 ^ 64" .
  from new_RawMemory_no_wrap[OF assms(1,2) this] show ?thesis .
qed

lemma new_RawMemory_total:
  assumes "0 < size_of T" "int n * int (size_of T) < 2 ^ 63" "\<not> alloc_throws T n"
  shows "new_RawMemory T n = Inr (replicate n None)"
proof -
  have b: "bytes_requested T n = int n * int (size_of T)"
    unfolding bytes_requested_def using assms(2) by (intro mod_pos_pos_trivial) simp_all
  show ?thesis using assms unfolding new_RawMemory_def b by simp
qed


section \<open>EmplaceBack\<close>

lemma EmplaceBack_Returns:
  assumes "EmplaceBack T ctor v = Returns r v'"
  shows "\<exists>x. ctor = Some x \<and> r = size_v v \<and> size_v v' = Suc (size_v v)
     \<and> size_v v < length (data_v v')
     \<and> capacity_v v' =
          (if size_v v < Capacity v then Capacity v
           else if size_v v = 0 then 1 else size_v v * 2)
     \<and> (if size_v v < Capacity v then length (data_v v') = length (data_v v)
         else new_RawMemory T (if size_v v = 0 then 1 else size_v v * 2)
                = Inr (replicate (length (data_v v')) None))
     \<and> (\<forall>j<size_v v. j < length (data_v v) \<and> data_v v' ! j = data_v v ! j)
     \<and> data_v v' ! size_v v = Some x
     \<and> (\<forall>j<length (data_v v'). size_v v < j \<longrightarrow>
           data_v v' ! j = (if size_v v < Capacity v then data_v v ! j else None))"
proof (cases "size_v v < Capacity v")
  case True
  show ?thesis
  proof (cases ctor)
    case None
    with assms True show ?thesis by (simp add: EmplaceBack_def)
  next
    case (Some x)
    with True assms have room: "size_v v < length (data_v v)"
      by (simp add: EmplaceBack_def split: if_splits)
    with True Some
    have "EmplaceBack T ctor v =
        Returns (size_v v) (v\<lparr>data_v := (data_v v)[size_v v := Some x], size_v := size_v v + 1\<rparr>)"
      by (simp add: EmplaceBack_def)
    with assms
    have "Returns (size_v v) (v\<lparr>data_v := (data_v v)[size_v v := Some x], size_v := size_v v + 1\<rparr>)
        = Returns r v'"
      by metis
    then have v': "v' = v\<lparr>data_v := (data_v v)[size_v v := Some x], size_v := size_v v + 1\<rparr>"
      and r: "r = size_v v"
      by blast+
    show ?thesis using True Some r room unfolding v' by (simp add: Capacity_def)
  qed
next
  case False
  define m where "m = (if size_v v = 0 then 1 else size_v v * 2)"
  from assms have run: "(case new_RawMemory T m of
           Inl e \<Rightarrow> Throws e v
         | Inr new_data \<Rightarrow>
             (case ctor of
                None \<Rightarrow> Throws ElementFailure v
              | Some x \<Rightarrow>
                  if size_v v < length new_data then
                  (case and_then
                          (relocate T 0 [0..<size_v v] (new_data[size_v v := Some x], data_v v))
                          (DestroyN_old (size_v v)) of
                     Returns r s \<Rightarrow>
                       Returns (size_v v) \<lparr>data_v = fst s, capacity_v = m, size_v = size_v v + 1\<rparr>
                   | Throws e s \<Rightarrow> Throws e (v\<lparr>data_v := snd s\<rparr>)
                   | Undefined \<Rightarrow> Undefined)
                  else Undefined)) = Returns r v'"
    unfolding EmplaceBack_def m_def if_not_P[OF False] .
  then obtain new_data where nd: "new_RawMemory T m = Inr new_data"
    by (cases "new_RawMemory T m") auto
  define L where "L = length new_data"
  from new_RawMemory_Inr[OF nd] have nd': "new_data = replicate L None"
    by (simp add: L_def)
  from run nd obtain x where x: "ctor = Some x" by (cases ctor) auto
  from run nd x have lt: "size_v v < L"
    by (simp add: L_def split: if_splits)
  let ?m = "and_then
        (relocate T 0 [0..<size_v v] (new_data[size_v v := Some x], data_v v))
        (DestroyN_old (size_v v))"
  from run nd x lt have run': "(case ?m of
        Returns r s \<Rightarrow>
          Returns (size_v v) \<lparr>data_v = fst s, capacity_v = m, size_v = size_v v + 1\<rparr>
      | Throws e s \<Rightarrow> Throws e (v\<lparr>data_v := snd s\<rparr>)
      | Undefined \<Rightarrow> Undefined) = Returns r v'"
    by (simp add: L_def)
  then obtain u s2 where s2: "?m = Returns u s2" by (cases ?m) simp_all
  from run' have v': "v' = \<lparr>data_v = fst s2, capacity_v = m, size_v = size_v v + 1\<rparr>"
    "r = size_v v"
    unfolding s2 by auto
  from s2 obtain s1 where
    rel: "relocate T 0 [0..<size_v v] ((replicate L None)[size_v v := Some x], data_v v) = Returns () s1"
    and des: "DestroyN_old (size_v v) s1 = Returns () s2"
    unfolding nd' by (auto simp: and_then_def split: outcome.splits)
  from relocate_Returns[OF rel] have f:
    "length (fst s1) = L"
    "\<forall>i<size_v v. i < length (data_v v) \<and> data_v v ! i \<noteq> None"
    "\<forall>j<L. fst s1 ! j = (if j < size_v v then data_v v ! j else ((replicate L None)[size_v v := Some x]) ! j)"
    by auto
  from DestroyN_old_Returns[OF des] have e: "fst s2 = fst s1" by simp
  have len: "length (data_v v') = L" using v' e f(1) by simp
  have new: "new_RawMemory T m = Inr (replicate (length (data_v v')) None)"
    unfolding len using nd nd' by simp
  have a: "\<forall>j<size_v v. j < length (data_v v) \<and> data_v v' ! j = data_v v ! j"
    using f lt v' e by auto
  have b: "data_v v' ! size_v v = Some x" using f(3) lt v' e by auto
  have c: "\<forall>j<length (data_v v'). size_v v < j \<longrightarrow> data_v v' ! j = None"
    using f lt v' e by auto
  have d: "capacity_v v' = m" "size_v v' = Suc (size_v v)" using v' by simp_all
  show ?thesis using False x v'(2) d len lt new a b c unfolding m_def by simp
qed

lemma append_to_builds: "append_to T a v = EmplaceBack T (builds T a) v"
  by (cases a) (simp_all add: PushBack_copy_def PushBack_move_def)

lemma EmplaceBack_elements:
  assumes "EmplaceBack T ctor v = Returns r v'"
  shows "\<exists>x. ctor = Some x \<and> elements v' = elements v @ [Some x]"
proof -
  from EmplaceBack_Returns[OF assms] obtain x where x: "ctor = Some x"
    and f: "size_v v' = Suc (size_v v)" "size_v v < length (data_v v')"
      "\<forall>j<size_v v. j < length (data_v v) \<and> data_v v' ! j = data_v v ! j"
      "data_v v' ! size_v v = Some x"
    by blast
  have le: "size_v v \<le> length (data_v v)"
  proof (cases "size_v v")
    case 0
    then show ?thesis by simp
  next
    case (Suc k)
    with f(3) have "k < length (data_v v)" by auto
    with Suc show ?thesis by simp
  qed
  have "elements v' = elements v @ [Some x]"
    unfolding elements_def
  proof (rule nth_equalityI)
    show "length (take (size_v v') (data_v v')) = length (take (size_v v) (data_v v) @ [Some x])"
      using f le by simp
  next
    fix i assume "i < length (take (size_v v') (data_v v'))"
    then have i: "i < Suc (size_v v)" using f by simp
    show "take (size_v v') (data_v v') ! i = (take (size_v v) (data_v v) @ [Some x]) ! i"
    proof (cases "i < size_v v")
      case True
      then show ?thesis using f le by (simp add: nth_append)
    next
      case False
      with i have "i = size_v v" by simp
      then show ?thesis using f le by (simp add: nth_append)
    qed
  qed
  with x show ?thesis by blast
qed

text \<open>The request of a growth cycle does not wrap around on a vector whose block
  exists.\<close>

lemma growth_request_no_wrap:
  assumes "vector_inv T v" "\<not> size_v v < Capacity v" "0 < size_v v"
  shows "int (size_v v * 2) * int (size_of T) < 2 ^ 64"
proof -
  from assms(1) have "size_v v \<le> capacity_v v" "int (capacity_v v) * int (size_of T) < 2 ^ 63"
    by (simp_all add: vector_inv_iff)
  with assms(2) have "int (size_v v) * int (size_of T) < 2 ^ 63"
    by (simp add: Capacity_def)
  then show ?thesis by simp
qed

lemma EmplaceBack_inv:
  assumes "EmplaceBack T ctor v = Returns r v'" "vector_inv T v"
  shows "vector_inv T v'"
proof -
  from EmplaceBack_Returns[OF assms(1)] obtain x where
    f: "size_v v' = Suc (size_v v)" "size_v v < length (data_v v')"
      "capacity_v v' =
          (if size_v v < Capacity v then Capacity v
           else if size_v v = 0 then 1 else size_v v * 2)"
      "if size_v v < Capacity v then length (data_v v') = length (data_v v)
         else new_RawMemory T (if size_v v = 0 then 1 else size_v v * 2)
                = Inr (replicate (length (data_v v')) None)"
      "\<forall>j<size_v v. j < length (data_v v) \<and> data_v v' ! j = data_v v ! j"
      "data_v v' ! size_v v = Some x"
      "\<forall>j<length (data_v v'). size_v v < j \<longrightarrow>
           data_v v' ! j = (if size_v v < Capacity v then data_v v ! j else None)"
    by blast
  from assms(2) have inv: "length (data_v v) = capacity_v v" "0 < size_of T"
    "int (capacity_v v) * int (size_of T) < 2 ^ 63"
    "size_v v \<le> length (data_v v)"
    "\<forall>j<length (data_v v). (data_v v ! j \<noteq> None) = (j < size_v v)"
    by (auto simp: vector_inv_iff)
  have st: "storage_for T (capacity_v v') (data_v v')"
  proof (cases "size_v v < Capacity v")
    case True
    with f(3,4) inv show ?thesis by (simp add: storage_for_def Capacity_def)
  next
    case False
    define m where "m = (if size_v v = 0 then 1 else size_v v * 2)"
    from False f(3,4) have c: "capacity_v v' = m"
      and new: "new_RawMemory T m = Inr (replicate (length (data_v v')) None)"
      by (simp_all add: m_def)
    show ?thesis
    proof (cases "size_v v = 0")
      case True
      then have "m \<le> length (replicate (length (data_v v')) (None :: 'a option))"
        using f(2) by (simp add: m_def Suc_le_eq)
      from new_RawMemory_storage[OF new inv(2) this] show ?thesis
        unfolding c by (simp add: storage_for_def)
    next
      case nz: False
      then have "int m * int (size_of T) < 2 ^ 64"
        using growth_request_no_wrap[OF assms(2) False] by (simp add: m_def)
      from new_RawMemory_no_wrap[OF new inv(2) this] show ?thesis
        unfolding c by (simp add: storage_for_def)
    qed
  qed
  then have len: "length (data_v v') = capacity_v v'" by (simp add: storage_for_def)
  have "\<forall>j<length (data_v v'). (data_v v' ! j \<noteq> None) = (j < size_v v')"
  proof (intro allI impI)
    fix j assume j: "j < length (data_v v')"
    consider "j < size_v v" | "j = size_v v" | "size_v v < j" by linarith
    then show "(data_v v' ! j \<noteq> None) = (j < size_v v')"
    proof cases
      case 1
      then show ?thesis using f inv by auto
    next
      case 2
      then show ?thesis using f by auto
    next
      case 3
      then show ?thesis using f j inv by (auto simp: Capacity_def split: if_splits)
    qed
  qed
  moreover have "size_v v' \<le> capacity_v v'" using f(1,2) len by simp
  ultimately show ?thesis using st unfolding vector_inv_def live_prefix_iff by simp
qed

lemma EmplaceBack_total:
  assumes "vector_inv T v" "\<forall>x. can_relocate T x"
    "size_v v < Capacity v \<or>
       \<not> alloc_throws T (if size_v v = 0 then 1 else size_v v * 2)
       \<and> int (if size_v v = 0 then 1 else size_v v * 2) * int (size_of T) < 2 ^ 63"
  shows "\<exists>v'. EmplaceBack T (Some x) v = Returns (size_v v) v'"
proof (cases "size_v v < Capacity v")
  case True
  with assms(1) have "size_v v < length (data_v v)"
    by (simp add: vector_inv_iff Capacity_def)
  with True show ?thesis by (simp add: EmplaceBack_def)
next
  case False
  define m where "m = (if size_v v = 0 then 1 else size_v v * 2)"
  from assms(1) have inv: "size_v v \<le> length (data_v v)" "0 < size_of T"
    "\<forall>j<length (data_v v). (data_v v ! j \<noteq> None) = (j < size_v v)"
    by (auto simp: vector_inv_iff)
  have lt: "size_v v < m" by (simp add: m_def)
  from assms(3) False have "\<not> alloc_throws T m" "int m * int (size_of T) < 2 ^ 63"
    by (simp_all add: m_def)
  from new_RawMemory_total[OF inv(2) this(2,1)]
  have new: "new_RawMemory T m = Inr (replicate m None)" .
  let ?s0 = "((replicate m None)[size_v v := Some x], data_v v)"
  have "\<forall>i\<in>set [0..<size_v v]. i < length (snd ?s0) \<and> i + 0 < length (fst ?s0) \<and> snd ?s0 ! i \<noteq> None"
    using inv lt by auto
  from relocate_total[OF assms(2) _ this] obtain s1 where
    rel: "relocate T 0 [0..<size_v v] ?s0 = Returns () s1" by auto
  from relocate_Returns[OF rel] have
    "length (snd s1) = length (data_v v)" "\<forall>j. (snd s1 ! j \<noteq> None) = (data_v v ! j \<noteq> None)"
    by auto
  then have "\<forall>i<size_v v. i < length (snd s1) \<and> snd s1 ! i \<noteq> None" using inv by auto
  from DestroyN_old_total[OF this] obtain s2 where
    des: "DestroyN_old (size_v v) s1 = Returns () s2" by auto
  show ?thesis using False new rel des lt
    by (simp add: EmplaceBack_def m_def[symmetric] and_then_def)
qed

section \<open>Appending\<close>

lemma doubling_ge: "k \<le> doubling k"
  by (induction k) auto

lemma doubling_Suc_ge: "doubling k \<le> doubling (Suc k)"
  by (simp add: max_def)

lemma doubling_mono: "k \<le> l \<Longrightarrow> doubling k \<le> doubling l"
  by (rule lift_Suc_mono_le[of doubling]) (simp_all add: max_def)

lemma doubling_power_of_two: "0 < k \<Longrightarrow> \<exists>j. doubling k = 2 ^ j"
proof (induction k)
  case 0
  then show ?case by simp
next
  case (Suc k)
  show ?case
  proof (cases "k = 0")
    case True
    then have "doubling (Suc k) = 2 ^ 0" by simp
    then show ?thesis by blast
  next
    case False
    with Suc.IH obtain j where j: "doubling k = 2 ^ j" by auto
    show ?thesis
    proof (cases "k < doubling k")
      case True
      with j show ?thesis by auto
    next
      case False
      with j have "doubling (Suc k) = 2 ^ Suc j" by (simp add: max_def)
      then show ?thesis by blast
    qed
  qed
qed

lemma EmplaceBack_capacity:
  assumes "EmplaceBack T c v = Returns r v'"
  shows "size_v v' = Suc (size_v v) \<and>
     Capacity v' = (if size_v v < Capacity v then Capacity v
                    else if size_v v = 0 then 1 else size_v v * 2)"
  using EmplaceBack_Returns[OF assms] by (auto simp: Capacity_def)

lemma growth_follows_doubling:
  assumes "Capacity v = doubling (size_v v)"
  shows "(if size_v v < Capacity v then Capacity v
          else if size_v v = 0 then 1 else size_v v * 2) = doubling (Suc (size_v v))"
  using assms doubling_ge[of "size_v v"] by (auto simp: max_def)

lemma appends_from:
  assumes "appends T ops v = Returns r v'" "Capacity v = doubling (size_v v)"
  shows "size_v v' = size_v v + length ops \<and> Capacity v' = doubling (size_v v + length ops)
     \<and> capacities T ops v = map doubling [Suc (size_v v)..<Suc (size_v v + length ops)]"
  using assms
proof (induction ops arbitrary: v)
  case Nil
  then show ?case by simp
next
  case (Cons c cs)
  from Cons.prems(1) obtain i v1 where e0: "append_to T c v = Returns i v1"
    and rest: "appends T cs v1 = Returns r v'"
    by (auto split: outcome.splits)
  from e0 have e: "EmplaceBack T (builds T c) v = Returns i v1"
    by (simp add: append_to_builds)
  from EmplaceBack_capacity[OF e] have s1: "size_v v1 = Suc (size_v v)"
    and c1: "Capacity v1 = (if size_v v < Capacity v then Capacity v
                    else if size_v v = 0 then 1 else size_v v * 2)" by auto
  have "Capacity v1 = doubling (Suc (size_v v))"
    unfolding c1 using Cons.prems(2) by (rule growth_follows_doubling)
  then have d1: "Capacity v1 = doubling (size_v v1)" using s1 by simp
  from Cons.IH[OF rest d1] have ih: "size_v v' = size_v v1 + length cs"
    "Capacity v' = doubling (size_v v1 + length cs)"
    "capacities T cs v1 = map doubling [Suc (size_v v1)..<Suc (size_v v1 + length cs)]" by auto
  have u: "[Suc (size_v v)..<Suc (size_v v + length (c # cs))] =
      Suc (size_v v) # [Suc (size_v v1)..<Suc (size_v v1 + length cs)]"
    unfolding s1 by (subst upt_conv_Cons) simp_all
  have "capacities T (c # cs) v = Capacity v1 # capacities T cs v1"
    using e0 by simp
  also have "\<dots> = doubling (Suc (size_v v)) # map doubling [Suc (size_v v1)..<Suc (size_v v1 + length cs)]"
    using ih(3) d1 s1 by (simp del: doubling.simps)
  also have "\<dots> = map doubling [Suc (size_v v)..<Suc (size_v v + length (c # cs))]"
    unfolding u by (simp del: doubling.simps)
  finally have caps: "capacities T (c # cs) v =
      map doubling [Suc (size_v v)..<Suc (size_v v + length (c # cs))]" .
  have "size_v v' = size_v v + length (c # cs)" using ih(1) s1 by simp
  moreover have "Capacity v' = doubling (size_v v + length (c # cs))" using ih(2) s1 by (simp del: doubling.simps)
  ultimately show ?case using caps by blast
qed

lemma appends_inv:
  "appends T ops v = Returns r v' \<Longrightarrow> vector_inv T v \<Longrightarrow> vector_inv T v'"
proof (induction ops arbitrary: v)
  case Nil
  then show ?case by simp
next
  case (Cons c cs)
  from Cons.prems(1) obtain i v1 where e: "EmplaceBack T (builds T c) v = Returns i v1"
    and rest: "appends T cs v1 = Returns r v'"
    by (auto simp: append_to_builds split: outcome.splits)
  from EmplaceBack_inv[OF e Cons.prems(2)] Cons.IH[OF rest] show ?case by simp
qed

lemma appends_elements:
  "appends T ops v = Returns r v' \<Longrightarrow>
     elements v' = elements v @ map (builds T) ops \<and> list_all (\<lambda>a. builds T a \<noteq> None) ops"
proof (induction ops arbitrary: v)
  case Nil
  then show ?case by simp
next
  case (Cons c cs)
  from Cons.prems(1) obtain i v1 where e: "EmplaceBack T (builds T c) v = Returns i v1"
    and rest: "appends T cs v1 = Returns r v'"
    by (auto simp: append_to_builds split: outcome.splits)
  from EmplaceBack_elements[OF e] Cons.IH[OF rest] show ?case by auto
qed

text \<open>A sequence of appends returns when every constructor call, every relocation and
  every allocation succeeds and the largest block asked for is one that can exist.\<close>

lemma appends_total:
  assumes "\<forall>x. can_relocate T x" "\<forall>n. \<not> alloc_throws T n"
  shows "vector_inv T v \<Longrightarrow> Capacity v = doubling (size_v v) \<Longrightarrow>
     list_all (\<lambda>a. builds T a \<noteq> None) ops \<Longrightarrow>
     int (doubling (size_v v + length ops)) * int (size_of T) < 2 ^ 63 \<Longrightarrow>
     \<exists>v'. appends T ops v = Returns () v'"
proof (induction ops arbitrary: v)
  case Nil
  then show ?case by simp
next
  case (Cons a as)
  from Cons.prems(3) obtain x where x: "builds T a = Some x" and rest: "list_all (\<lambda>a. builds T a \<noteq> None) as"
    by auto
  define m where "m = (if size_v v = 0 then 1 else size_v v * 2)"
  have room: "size_v v < Capacity v \<or> \<not> alloc_throws T m \<and> int m * int (size_of T) < 2 ^ 63"
  proof (cases "size_v v < Capacity v")
    case True
    then show ?thesis by simp
  next
    case False
    with growth_follows_doubling[OF Cons.prems(2)] have "m = doubling (Suc (size_v v))"
      by (simp add: m_def)
    also have "\<dots> \<le> doubling (size_v v + length (a # as))"
      by (rule doubling_mono) simp
    finally have "int m * int (size_of T) \<le> int (doubling (size_v v + length (a # as))) * int (size_of T)"
      by (intro mult_right_mono) simp_all
    with Cons.prems(4) have "int m * int (size_of T) < 2 ^ 63" by linarith
    with assms(2) show ?thesis by simp
  qed
  from EmplaceBack_total[OF Cons.prems(1) assms(1) room[unfolded m_def], of x]
  obtain v1 where e: "EmplaceBack T (Some x) v = Returns (size_v v) v1" by auto
  from EmplaceBack_inv[OF e Cons.prems(1)] have inv1: "vector_inv T v1" .
  from EmplaceBack_capacity[OF e] growth_follows_doubling[OF Cons.prems(2)]
  have s1: "size_v v1 = Suc (size_v v)" and c1: "Capacity v1 = doubling (size_v v1)"
    by (simp_all del: doubling.simps)
  have "int (doubling (size_v v1 + length as)) * int (size_of T) < 2 ^ 63"
    using Cons.prems(4) s1 by (simp del: doubling.simps)
  from Cons.IH[OF inv1 c1 rest this] e x show ?case by (simp add: append_to_builds)
qed



lemma Vector_default_inv: "0 < size_of T \<Longrightarrow> vector_inv T Vector_default"
  by (simp add: vector_inv_iff Vector_default_def)

text \<open>
  C5. A sequence of appends to an empty vector that returns leaves as many elements as
  appends, a capacity that is at least that number and equals the one the growth law
  gives, and shows after each append the capacity of that law. An append to a full
  vector, be it \<^verbatim>\<open>PushBack(const T&)\<close>, \<^verbatim>\<open>PushBack(T&&)\<close> or \<^verbatim>\<open>EmplaceBack\<close>, sets
  the capacity to \<open>max 1 (2 * capacity)\<close>. And the sequence does return when every
  constructor call of the appends succeeds, no relocation and no allocation throws, and
  the largest block asked for, of \<open>doubling k\<close> elements, is within what
  \<^verbatim>\<open>operator new\<close> supplies.
\<close>

theorem C5_appends_size_capacity_doubling:
  "(appends T ops Vector_default = Returns r v \<longrightarrow>
      Size v = length ops \<and> length ops \<le> Capacity v \<and> Capacity v = doubling (length ops)
      \<and> capacities T ops Vector_default = map doubling [1..<Suc (length ops)])
   \<and> (Size w = Capacity w \<longrightarrow>
        (PushBack_copy T x w = Returns i w' \<longrightarrow> Capacity w' = max 1 (2 * Capacity w))
        \<and> (PushBack_move T x w = Returns i w' \<longrightarrow> Capacity w' = max 1 (2 * Capacity w))
        \<and> (EmplaceBack T c w = Returns i w' \<longrightarrow> Capacity w' = max 1 (2 * Capacity w)))
   \<and> (list_all (\<lambda>a. builds T a \<noteq> None) ops \<and> (\<forall>y. can_relocate T y)
        \<and> (\<forall>n. \<not> alloc_throws T n) \<and> 0 < size_of T
        \<and> int (doubling (length ops)) * int (size_of T) < 2 ^ 63 \<longrightarrow>
        (\<exists>u. appends T ops Vector_default = Returns () u))"
proof -
  have d0: "Capacity (Vector_default :: 'a Vector) = doubling (size_v (Vector_default :: 'a Vector))"
    by (simp add: Vector_default_def Capacity_def)
  have p1: "Size v = length ops \<and> length ops \<le> Capacity v \<and> Capacity v = doubling (length ops)
      \<and> capacities T ops Vector_default = map doubling [1..<Suc (length ops)]"
    if run: "appends T ops Vector_default = Returns r v"
  proof -
    from appends_from[OF run d0]
    have a: "size_v v = length ops" "Capacity v = doubling (length ops)"
      "capacities T ops Vector_default = map doubling [Suc 0..<Suc (length ops)]"
      by (simp_all add: Vector_default_def del: doubling.simps upt_Suc)
    have "length ops \<le> Capacity v" unfolding a(2) by (rule doubling_ge)
    with a show ?thesis by (simp add: Size_def del: doubling.simps upt_Suc)
  qed
  have grow: "Capacity w' = max 1 (2 * Capacity w)"
    if "Size w = Capacity w" "EmplaceBack T c' w = Returns i w'" for c'
    using EmplaceBack_capacity[OF that(2)] that(1) by (auto simp: max_def Size_def)
  have p2: "Capacity w' = max 1 (2 * Capacity w)"
    if "Size w = Capacity w" "PushBack_copy T x w = Returns i w'"
    using grow[of "copy_of T x"] that by (simp add: PushBack_copy_def)
  have p3: "Capacity w' = max 1 (2 * Capacity w)"
    if "Size w = Capacity w" "PushBack_move T x w = Returns i w'"
    using grow[of "move_of T x"] that by (simp add: PushBack_move_def)
  have p4: "Capacity w' = max 1 (2 * Capacity w)"
    if "Size w = Capacity w" "EmplaceBack T c w = Returns i w'"
    using grow[of c] that by simp
  have p5: "\<exists>u. appends T ops Vector_default = Returns () u"
    if "list_all (\<lambda>a. builds T a \<noteq> None) ops" "\<forall>y. can_relocate T y"
      "\<forall>n. \<not> alloc_throws T n" "0 < size_of T"
      "int (doubling (length ops)) * int (size_of T) < 2 ^ 63"
  proof -
    have "int (doubling (size_v (Vector_default :: 'a Vector) + length ops)) * int (size_of T) < 2 ^ 63"
      using that(5) by (simp add: Vector_default_def del: doubling.simps)
    from appends_total[OF that(2,3) Vector_default_inv[OF that(4)] d0 that(1) this]
    show ?thesis .
  qed
  show ?thesis using p1 p2 p3 p4 p5 by blast
qed

theorem C5_witness:
  "appends copied_int_traits [PushBack_const 1, PushBack_rvalue 2, EmplaceBack_with (Some 3)]
        Vector_default =
      Returns () \<lparr>data_v = [Some 1, Some 2, Some 3, None], capacity_v = 4, size_v = 3\<rparr>
   \<and> Size \<lparr>data_v = [Some 1, Some 2, Some (3::int), None], capacity_v = 4, size_v = 3\<rparr> = 3
   \<and> Capacity \<lparr>data_v = [Some 1, Some 2, Some (3::int), None], capacity_v = 4, size_v = 3\<rparr>
       = doubling 3
   \<and> capacities copied_int_traits
        [PushBack_const 1, PushBack_rvalue 2, EmplaceBack_with (Some 3)] Vector_default
       = map doubling [1, 2, 3]
   \<and> map doubling [1, 2, 3] = [1, 2, 4]
   \<and> Size \<lparr>data_v = [Some 1, Some (2::int)], capacity_v = 2, size_v = 2\<rparr>
       = Capacity \<lparr>data_v = [Some 1, Some (2::int)], capacity_v = 2, size_v = 2\<rparr>
   \<and> PushBack_copy copied_int_traits 3 \<lparr>data_v = [Some 1, Some 2], capacity_v = 2, size_v = 2\<rparr> =
      Returns 2 \<lparr>data_v = [Some 1, Some 2, Some 3, None], capacity_v = 4, size_v = 3\<rparr>
   \<and> PushBack_move copied_int_traits 3 \<lparr>data_v = [Some 1, Some 2], capacity_v = 2, size_v = 2\<rparr> =
      Returns 2 \<lparr>data_v = [Some 1, Some 2, Some 3, None], capacity_v = 4, size_v = 3\<rparr>
   \<and> EmplaceBack copied_int_traits (Some 3)
        \<lparr>data_v = [Some 1, Some 2], capacity_v = 2, size_v = 2\<rparr> =
      Returns 2 \<lparr>data_v = [Some 1, Some 2, Some 3, None], capacity_v = 4, size_v = 3\<rparr>
   \<and> Capacity \<lparr>data_v = [Some 1, Some 2, Some (3::int), None], capacity_v = 4, size_v = 3\<rparr>
       = max 1 (2 * Capacity \<lparr>data_v = [Some 1, Some (2::int)], capacity_v = 2, size_v = 2\<rparr>)
   \<and> list_all (\<lambda>a. builds copied_int_traits a \<noteq> None)
        [PushBack_const 1, PushBack_rvalue 2, EmplaceBack_with (Some 3)]
   \<and> (\<forall>y. can_relocate copied_int_traits y)
   \<and> (\<forall>n. \<not> alloc_throws copied_int_traits n)
   \<and> 0 < size_of copied_int_traits
   \<and> int (doubling 3) * int (size_of copied_int_traits) < 2 ^ 63
   \<and> (\<exists>u. appends copied_int_traits
              [PushBack_const 1, PushBack_rvalue 2, EmplaceBack_with (Some 3)] Vector_default
            = Returns () u)"
proof -
  let ?T = copied_int_traits
  let ?ops = "[PushBack_const (1::int), PushBack_rvalue 2, EmplaceBack_with (Some 3)]"
  let ?v = "\<lparr>data_v = [Some (1::int), Some 2, Some 3, None], capacity_v = 4, size_v = 3\<rparr>"
  let ?w = "\<lparr>data_v = [Some (1::int), Some 2], capacity_v = 2, size_v = 2\<rparr>"
  have run: "appends ?T ?ops Vector_default = Returns () ?v"
    by code_simp
  have step: "PushBack_copy ?T 3 ?w = Returns 2 ?v" "PushBack_move ?T 3 ?w = Returns 2 ?v"
    "EmplaceBack ?T (Some 3) ?w = Returns 2 ?v"
    by code_simp+
  have full: "Size ?w = Capacity ?w"
    by (simp add: Size_def Capacity_def)
  have len: "length ?ops = 3" "[1..<Suc 3] = [1, 2, 3]"
    by code_simp+
  have caps: "map doubling [1, 2, 3] = [1, 2, 4]"
    by code_simp
  have quiet: "list_all (\<lambda>a. builds ?T a \<noteq> None) ?ops" "\<forall>y. can_relocate ?T y"
    "\<forall>n. \<not> alloc_throws ?T n" "0 < size_of ?T"
    by (simp_all add: copied_int_traits_def int_traits_def can_relocate_def
        relocates_by_move_def copy_of_def move_of_def)
  have fits: "int (doubling (length ?ops)) * int (size_of ?T) < 2 ^ 63"
    by (simp add: copied_int_traits_def int_traits_def)
  note inst = C5_appends_size_capacity_doubling[of ?T ?ops "()" ?v ?w 3 2 ?v "Some 3"]
  from inst run have a: "Size ?v = length ?ops" "Capacity ?v = doubling (length ?ops)"
      "capacities ?T ?ops Vector_default = map doubling [1..<Suc (length ?ops)]"
    by blast+
  from inst step full have b: "Capacity ?v = max 1 (2 * Capacity ?w)"
    by blast
  from inst quiet fits have c: "\<exists>u. appends ?T ?ops Vector_default = Returns () u"
    by blast
  show ?thesis using run step full caps a b c quiet fits unfolding len by blast
qed

section \<open>Reserve\<close>















section \<open>Resize\<close>

lemma for_each_ValueConstruct_Returns:
  "for_each (ValueConstruct T) is b = Returns r b' \<Longrightarrow>
     length b' = length b \<and> (\<forall>i\<in>set is. i < length b)
     \<and> (\<forall>j<length b. b' ! j = (if j \<in> set is then Some (default_value T) else b ! j))"
proof (induction "is" arbitrary: b)
  case Nil
  then show ?case by simp
next
  case (Cons i "is")
  from Cons.prems obtain b1 where d: "ValueConstruct T i b = Returns () b1"
    and rest: "for_each (ValueConstruct T) is b1 = Returns r b'"
    by (auto split: outcome.splits)
  from d have b1: "i < length b" "b1 = b[i := Some (default_value T)]"
    by (auto simp: ValueConstruct_def split: if_splits)
  from Cons.IH[OF rest] have ih: "length b' = length b1"
    "\<forall>k\<in>set is. k < length b1"
    "\<forall>j<length b1. b' ! j = (if j \<in> set is then Some (default_value T) else b1 ! j)"
    by blast+
  have nth: "\<forall>j<length b. b' ! j = (if j \<in> set (i # is) then Some (default_value T) else b ! j)"
    using ih(3) b1 by (auto simp: nth_list_update)
  show ?case using b1 ih(1,2) nth by simp
qed














section \<open>Emplace and Insert\<close>

text \<open>
  C1 (the code departs from the claim). The vector \<open>[1, 2]\<close> with capacity 4 takes the
  in-place branch. Inserting 99 at position 1 (\<open>p = n - 1\<close>) and at position 2
  (\<open>p = n\<close>) both return the vector \<open>[1, 2, 2]\<close>: the last element has been
  move-constructed into the new slot, the test \<^verbatim>\<open>id + 1 < size_\<close> fails, and the
  value built in \<^verbatim>\<open>obj\<close> is never stored.
\<close>

theorem C1_in_place_insert_loses_value:
  "Insert_copy int_traits 1 99
       \<lparr>data_v = [Some 1, Some 2, None, None], capacity_v = 4, size_v = 2\<rparr>
     = Returns 1 \<lparr>data_v = [Some 1, Some 2, Some 2, None], capacity_v = 4, size_v = 3\<rparr>
   \<and> Insert_copy int_traits 2 99
       \<lparr>data_v = [Some 1, Some 2, None, None], capacity_v = 4, size_v = 2\<rparr>
     = Returns 2 \<lparr>data_v = [Some 1, Some 2, Some 2, None], capacity_v = 4, size_v = 3\<rparr>"
  by code_simp

text \<open>
  C2 (the code departs from the claim). The vector \<open>[1]\<close> with capacity 1 takes the
  growth branch, and the copy of its element throws. At position 1 the exception comes from
  the prefix loop, at position 0 from the suffix loop. In both cases the handler destroys
  what the claim says, but then the function goes on: it destroys the old elements, swaps
  the blocks, increments the size and returns. No exception reaches the caller, and the
  vector now has size 2, capacity 2 and no live element.
\<close>

theorem C2_growth_handlers_swallow:
  "Emplace copy_always_throws 1 (Some 9) \<lparr>data_v = [Some 1], capacity_v = 1, size_v = 1\<rparr>
     = Returns 1 \<lparr>data_v = [None, None], capacity_v = 2, size_v = 2\<rparr>
   \<and> Emplace copy_always_throws 0 (Some 9) \<lparr>data_v = [Some 1], capacity_v = 1, size_v = 1\<rparr>
     = Returns 0 \<lparr>data_v = [None, None], capacity_v = 2, size_v = 2\<rparr>"
  by code_simp

text \<open>
  C6 (the code departs from the claim). The vector \<open>[7, 13]\<close> with capacity 2 satisfies
  the invariant. \<^verbatim>\<open>Insert(begin(), 5)\<close>, for a type whose copy constructor throws on
  13, returns normally, with size 3 and the slots 0 and 2 holding no object: the slots
  below the size are not all live, and the invariant no longer holds.
\<close>

theorem C6_insert_breaks_invariant:
  "vector_inv copy_throws_on_13 \<lparr>data_v = [Some 7, Some 13], capacity_v = 2, size_v = 2\<rparr>
   \<and> Insert_copy copy_throws_on_13 0 5
       \<lparr>data_v = [Some 7, Some 13], capacity_v = 2, size_v = 2\<rparr>
     = Returns 0 \<lparr>data_v = [None, Some 7, None, None], capacity_v = 4, size_v = 3\<rparr>
   \<and> \<not> live_prefix \<lparr>data_v = [None, Some (7::int), None, None], capacity_v = 4, size_v = 3\<rparr>
   \<and> \<not> vector_inv copy_throws_on_13
         \<lparr>data_v = [None, Some 7, None, None], capacity_v = 4, size_v = 3\<rparr>"
  by code_simp

section \<open>Assignment\<close>

text \<open>
  C10. Copy assignment of a vector to itself (\<open>this\<close> and \<open>rhs\<close> are the same
  address) returns and leaves the whole store, hence the vector, as it was.
\<close>

theorem C10_self_copy_assign: "copy_assign T this this \<sigma> = Returns () \<sigma>"
  by (simp add: copy_assign_def)

lemma Swap_at_distinct:
  "this \<noteq> other \<Longrightarrow> Swap_at this other \<sigma> = \<sigma>(this := \<sigma> other, other := \<sigma> this)"
  by (auto simp: Swap_at_def Let_def fun_eq_iff)

lemma Swap_at_self: "Swap_at this this \<sigma> = \<sigma>"
  by (auto simp: Swap_at_def Let_def fun_eq_iff)

lemma Swap_values: "Swap a b = (b, a)"
  by (simp add: Swap_def Let_def)

text \<open>
  C9. Move assignment between two distinct vectors exchanges them: afterwards \<open>this\<close>
  is what \<open>rhs\<close> was, block, capacity and size, and \<open>rhs\<close> is what \<open>this\<close> was. It
  is a total function on stores: there is no outcome in which it throws.
\<close>

theorem C9_move_assign_swaps:
  "this \<noteq> rhs \<longrightarrow> move_assign this rhs \<sigma> = \<sigma>(this := \<sigma> rhs, rhs := \<sigma> this)"
  by (simp add: move_assign_def Swap_at_distinct)

theorem C9_witness:
  "(0::nat) \<noteq> 1
   \<and> move_assign 0 1 two_vectors 0 = \<lparr>data_v = [Some 7], capacity_v = 1, size_v = 1\<rparr>
   \<and> move_assign 0 1 two_vectors 1
       = \<lparr>data_v = [Some 1, Some 2, None], capacity_v = 3, size_v = 2\<rparr>"
proof -
  have d: "(0::nat) \<noteq> 1" by simp
  from C9_move_assign_swaps[of 0 1 two_vectors] d
  have "move_assign 0 1 two_vectors = two_vectors(0 := two_vectors 1, 1 := two_vectors 0)"
    by blast
  then show ?thesis by (simp add: two_vectors_def)
qed

section \<open>Appending to a full vector when the copy constructor throws\<close>

text \<open>
  C4 as stated fails on the empty vector, whose size and capacity are both 0: there is no
  element to relocate, so \<^verbatim>\<open>PushBack(T&&)\<close> builds the new element by move and returns.
\<close>

theorem C4_counterexample:
  "is_copy_constructible copy_always_throws
   \<and> \<not> is_nothrow_move_constructible copy_always_throws
   \<and> copy_throws copy_always_throws 7
   \<and> Size (Vector_default :: int Vector) = Capacity (Vector_default :: int Vector)
   \<and> PushBack_move copy_always_throws 7 Vector_default
       = Returns 0 \<lparr>data_v = [Some 7], capacity_v = 1, size_v = 1\<rparr>"
  by code_simp

lemma EmplaceBack_full_ctor_fails:
  assumes "\<not> size_v v < Capacity v"
  shows "\<exists>e. EmplaceBack T None v = Throws e v"
  using assms by (auto simp: EmplaceBack_def split: sum.splits)

lemma EmplaceBack_full_copy_fails:
  assumes "\<forall>x. copy_throws T x" "is_copy_constructible T" "\<not> is_nothrow_move_constructible T"
    "vector_inv T v" "size_v v = Capacity v" "0 < size_v v"
  shows "\<exists>e. EmplaceBack T (Some x) v = Throws e v"
proof (cases "new_RawMemory T (if size_v v = 0 then 1 else size_v v * 2)")
  case (Inl e)
  with assms(5) show ?thesis by (simp add: EmplaceBack_def)
next
  case (Inr new_data)
  from assms(4) have inv: "size_v v \<le> length (data_v v)" "0 < size_of T"
    "\<forall>j<length (data_v v). (data_v v ! j \<noteq> None) = (j < size_v v)"
    by (simp_all add: vector_inv_iff)
  from assms(5) have nlt: "\<not> size_v v < Capacity v" by simp
  from Inr assms(6) have new: "new_RawMemory T (size_v v * 2) = Inr new_data" by simp
  from new_RawMemory_no_wrap[OF new inv(2) growth_request_no_wrap[OF assms(4) nlt assms(6)]]
  have nd: "new_data = replicate (size_v v * 2) None" by simp
  then have room: "size_v v < length new_data" using assms(6) by simp
  from inv(1) assms(6) have len: "0 < length (data_v v)" by linarith
  with inv(3) assms(6) have "data_v v ! 0 \<noteq> None" by blast
  then obtain y where y: "data_v v ! 0 = Some y" by blast
  have nm: "\<not> relocates_by_move T" using assms(2,3) by (simp add: relocates_by_move_def)
  have up: "[0..<size_v v] = 0 # [1..<size_v v]"
    using assms(6) by (simp add: upt_conv_Cons)
  have first: "CopyConstruct T (0 + 0) 0 (new_data[size_v v := Some x], data_v v)
      = Throws ElementFailure (new_data[size_v v := Some x], data_v v)"
    using y len assms(1,6) nd by (simp add: CopyConstruct_def copy_of_def)
  have "relocate T 0 [0..<size_v v] (new_data[size_v v := Some x], data_v v)
      = Throws ElementFailure (new_data[size_v v := Some x], data_v v)"
    unfolding relocate_def up using nm first by simp
  then have "EmplaceBack T (Some x) v = Throws ElementFailure (v\<lparr>data_v := data_v v\<rparr>)"
    using Inr assms(5) room by (simp add: EmplaceBack_def and_then_def)
  then show ?thesis by simp
qed

text \<open>
  C4 (amended). With a copy constructor that always throws and a move constructor that may
  throw, an append to a vector whose size equals its capacity ends in an exception and
  leaves the vector as it was, provided the vector holds an element or the construction of
  the new element itself throws; the latter is the case for \<^verbatim>\<open>PushBack(const T&)\<close>,
  which builds the new element with the copy constructor.
\<close>

theorem C4_append_to_full_vector_throws:
  assumes "\<forall>x. copy_throws T x" "is_copy_constructible T" "\<not> is_nothrow_move_constructible T"
    "vector_inv T v" "Size v = Capacity v"
  shows "(0 < Size v \<or> ctor = None \<longrightarrow> (\<exists>e. EmplaceBack T ctor v = Throws e v))
     \<and> (\<exists>e. PushBack_copy T val v = Throws e v)"
proof -
  from assms(5) have full: "size_v v = Capacity v" by (simp add: Size_def)
  then have nlt: "\<not> size_v v < Capacity v" by simp
  have p1: "\<exists>e. EmplaceBack T ctor v = Throws e v" if "0 < Size v \<or> ctor = None"
  proof (cases ctor)
    case None
    with EmplaceBack_full_ctor_fails[OF nlt] show ?thesis by simp
  next
    case (Some x)
    with that have "0 < size_v v" by (simp add: Size_def)
    from EmplaceBack_full_copy_fails[OF assms(1-4) full this] Some show ?thesis by simp
  qed
  have "copy_of T val = None" using assms(1) by (simp add: copy_of_def)
  with EmplaceBack_full_ctor_fails[OF nlt, of T]
  have p2: "\<exists>e. PushBack_copy T val v = Throws e v" by (simp add: PushBack_copy_def)
  show ?thesis using p1 p2 by blast
qed

theorem C4_witness:
  "(\<forall>x. copy_throws copy_always_throws x)
   \<and> is_copy_constructible copy_always_throws
   \<and> \<not> is_nothrow_move_constructible copy_always_throws
   \<and> vector_inv copy_always_throws \<lparr>data_v = [Some 1, Some 2], capacity_v = 2, size_v = 2\<rparr>
   \<and> Size \<lparr>data_v = [Some (1::int), Some 2], capacity_v = 2, size_v = 2\<rparr>
       = Capacity \<lparr>data_v = [Some (1::int), Some 2], capacity_v = 2, size_v = 2\<rparr>
   \<and> EmplaceBack copy_always_throws (Some 3)
       \<lparr>data_v = [Some 1, Some 2], capacity_v = 2, size_v = 2\<rparr>
       = Throws ElementFailure \<lparr>data_v = [Some 1, Some 2], capacity_v = 2, size_v = 2\<rparr>
   \<and> PushBack_copy copy_always_throws 3
       \<lparr>data_v = [Some 1, Some 2], capacity_v = 2, size_v = 2\<rparr>
       = Throws ElementFailure \<lparr>data_v = [Some 1, Some 2], capacity_v = 2, size_v = 2\<rparr>"
proof -
  let ?v = "\<lparr>data_v = [Some (1::int), Some 2], capacity_v = 2, size_v = 2\<rparr>"
  have h: "\<forall>x. copy_throws copy_always_throws x" "is_copy_constructible copy_always_throws"
    "\<not> is_nothrow_move_constructible copy_always_throws"
    by (simp_all add: copy_always_throws_def int_traits_def)
  have inv: "vector_inv copy_always_throws ?v" by code_simp
  have full: "Size ?v = Capacity ?v" by (simp add: Size_def Capacity_def)
  have pos: "0 < Size ?v" by (simp add: Size_def)
  from C4_append_to_full_vector_throws[OF h inv full, of "Some 3" 3] pos
  obtain e e' where e: "EmplaceBack copy_always_throws (Some 3) ?v = Throws e ?v"
    and e': "PushBack_copy copy_always_throws 3 ?v = Throws e' ?v"
    by blast
  have "EmplaceBack copy_always_throws (Some 3) ?v = Throws ElementFailure ?v"
    "PushBack_copy copy_always_throws 3 ?v = Throws ElementFailure ?v"
    by code_simp+
  with e e' have "e = ElementFailure" "e' = ElementFailure" by simp_all
  with e e' h inv full show ?thesis by blast
qed

section \<open>Emplace, branch by branch\<close>

text \<open>
  What \<^verbatim>\<open>Emplace\<close> does on each of its paths when no exception is thrown: on the
  in-place branch at the last two positions the value is lost
  (\<open>Emplace_in_place_tail\<close>); on the in-place branch at the other positions
  (\<open>Emplace_in_place_interior\<close>) and on the growth branch
  (\<open>Emplace_growth_Returns\<close>) the value is inserted at its position. And on the growth
  branch, once the new element is built, no exception leaves the function
  (\<open>Emplace_growth_never_propagates\<close>).
\<close>

lemma Emplace_in_place_tail:
  assumes "size_v v < Capacity v" "0 < size_v v" "size_v v \<le> idx + 1"
    "data_v v ! (size_v v - 1) = Some y" "move_of T y = Some y"
    "size_v v < length (data_v v)"
  shows "Emplace T idx (Some x) v = Returns idx
     (v\<lparr>data_v := (data_v v)[size_v v - 1 := Some (moved_from T y), size_v v := Some y],
        size_v := size_v v + 1\<rparr>)"
proof -
  have "MoveConstruct_same T (size_v v) (size_v v - 1) (data_v v)
      = Returns () ((data_v v)[size_v v - 1 := Some (moved_from T y), size_v v := Some y])"
    using assms by (simp add: MoveConstruct_same_def Capacity_def)
  then show ?thesis using assms(1,2,3) by (simp add: Emplace_def)
qed

lemma Destroy_new_not_Throws: "Destroy_new i s \<noteq> Throws e s'"
  by (auto simp: Destroy_new_def Destroy_not_Throws split: outcome.splits)

lemma DestroyN_new_not_Throws: "DestroyN_new n s \<noteq> Throws e s'"
proof -
  have "for_each Destroy_new is s \<noteq> Throws e s'" for "is"
    by (induction "is" arbitrary: s) (auto simp: Destroy_new_not_Throws split: outcome.splits)
  then show ?thesis by (simp add: DestroyN_new_def)
qed

lemma try_catch_not_Throws:
  "(\<And>s e s'. h s \<noteq> Throws e s') \<Longrightarrow> try_catch m h \<noteq> Throws e s'"
  by (cases m) (auto simp: try_catch_def)

lemma and_then_not_Throws:
  "(\<And>e s'. m \<noteq> Throws e s') \<Longrightarrow> (\<And>s e s'. f s \<noteq> Throws e s') \<Longrightarrow> and_then m f \<noteq> Throws e s'"
  by (cases m) (auto simp: and_then_def)

lemma Emplace_growth_never_propagates:
  assumes "size_v v = Capacity v"
    "new_RawMemory T (if size_v v = 0 then 1 else size_v v * 2) = Inr new_data"
  shows "Emplace T idx (Some x) v \<noteq> Throws e v'"
proof -
  let ?m = "and_then
              (and_then
                 (try_catch
                    (relocate T 0 [0..<idx] (new_data[idx := Some x], data_v v))
                    (Destroy_new idx))
                 (\<lambda>s. try_catch
                    (relocate T 1 [idx..<size_v v] s)
                    (DestroyN_new (idx + 1))))
              (DestroyN_old (size_v v))"
  have "?m \<noteq> Throws e s'" for e s'
    by (intro and_then_not_Throws try_catch_not_Throws Destroy_new_not_Throws
        DestroyN_new_not_Throws DestroyN_old_not_Throws)
  then have "(case ?m of
       Returns r s \<Rightarrow>
         Returns idx
           \<lparr>data_v = fst s, capacity_v = (if size_v v = 0 then 1 else size_v v * 2),
            size_v = size_v v + 1\<rparr>
     | Throws e s \<Rightarrow> Throws e (v\<lparr>data_v := snd s\<rparr>)
     | Undefined \<Rightarrow> Undefined) \<noteq> Throws e v'"
    by (cases ?m) auto
  then show ?thesis using assms by (simp add: Emplace_def)
qed

lemma Emplace_growth_Returns:
  assumes inv: "vector_inv T v" and full: "size_v v = Capacity v" and pos: "idx \<le> size_v v"
    and safe: "\<forall>x. can_relocate T x"
    and mem: "\<not> alloc_throws T (if size_v v = 0 then 1 else size_v v * 2)"
    and fits: "int (if size_v v = 0 then 1 else size_v v * 2) * int (size_of T) < 2 ^ 63"
  shows "\<exists>v'. Emplace T idx (Some x) v = Returns idx v' \<and> size_v v' = size_v v + 1
     \<and> elements v' = take idx (elements v) @ Some x # drop idx (elements v)
     \<and> vector_inv T v'"
proof -
  define m where "m = (if size_v v = 0 then 1 else size_v v * 2)"
  from inv full have len: "length (data_v v) = size_v v"
    and live: "\<forall>j<size_v v. data_v v ! j \<noteq> None"
    and sz: "0 < size_of T"
    by (auto simp: vector_inv_iff Capacity_def)
  have lt: "size_v v < m" by (simp add: m_def)
  from mem fits have "\<not> alloc_throws T m" "int m * int (size_of T) < 2 ^ 63"
    by (simp_all add: m_def)
  from new_RawMemory_total[OF sz this(2,1)]
  have new: "new_RawMemory T m = Inr (replicate m None)" .
  let ?s0 = "((replicate m None)[idx := Some x], data_v v)"
  have "\<forall>i\<in>set [0..<idx]. i < length (snd ?s0) \<and> i + 0 < length (fst ?s0) \<and> snd ?s0 ! i \<noteq> None"
    using len live lt pos by auto
  from relocate_total[OF safe _ this] obtain s1 where
    rel1: "relocate T 0 [0..<idx] ?s0 = Returns () s1" by auto
  from relocate_Returns[OF rel1] have f1:
    "length (fst s1) = m" "length (snd s1) = size_v v"
    "\<forall>j<m. fst s1 ! j = (if j < idx then data_v v ! j else ((replicate m None)[idx := Some x]) ! j)"
    "\<forall>j. (snd s1 ! j \<noteq> None) = (data_v v ! j \<noteq> None)"
    "\<forall>j. idx \<le> j \<longrightarrow> snd s1 ! j = data_v v ! j"
    using len by auto
  have "\<forall>i\<in>set [idx..<size_v v]. i < length (snd s1) \<and> i + 1 < length (fst s1) \<and> snd s1 ! i \<noteq> None"
    using f1 live lt by auto
  from relocate_total[OF safe _ this] obtain s2 where
    rel2: "relocate T 1 [idx..<size_v v] s1 = Returns () s2" by auto
  from relocate_Returns[OF rel2] have f2:
    "length (fst s2) = m" "length (snd s2) = size_v v"
    "\<forall>j<m. fst s2 ! j = (if 1 \<le> j \<and> j - 1 \<in> set [idx..<size_v v] then snd s1 ! (j - 1) else fst s1 ! j)"
    "\<forall>j. (snd s2 ! j \<noteq> None) = (snd s1 ! j \<noteq> None)"
    using f1 by auto
  have "\<forall>i<size_v v. i < length (snd s2) \<and> snd s2 ! i \<noteq> None"
    using f1 f2 live by auto
  from DestroyN_old_total[OF this] obtain s3 where
    des: "DestroyN_old (size_v v) s2 = Returns () s3" by auto
  from DestroyN_old_Returns[OF des] have s3: "fst s3 = fst s2" by simp
  let ?v' = "\<lparr>data_v = fst s3, capacity_v = m, size_v = size_v v + 1\<rparr>"
  have idx_lt: "idx < length (replicate m (None :: 'a option))" using pos lt by simp
  have ne: "\<not> size_v v \<noteq> Capacity v" using full by simp
  have run: "Emplace T idx (Some x) v = Returns idx ?v'"
    unfolding Emplace_def if_not_P[OF ne] m_def[symmetric] new sum.case option.case
      if_P[OF idx_lt] rel1 try_catch_def and_then_def outcome.case rel2 des
    by simp
  have nth: "fst s3 ! j = (if j < idx then data_v v ! j else if j = idx then Some x
                          else if j \<le> size_v v then data_v v ! (j - 1) else None)" if "j < m" for j
  proof -
    consider "j < idx" | "j = idx" | "idx < j" "j \<le> size_v v" | "size_v v < j"
      using pos by linarith
    then show ?thesis
    proof cases
      case 1
      then show ?thesis using that f1(3) f2(3) s3 by auto
    next
      case 2
      then show ?thesis using that f1(3) f2(3) s3 by auto
    next
      case 3
      then have "1 \<le> j \<and> j - 1 \<in> set [idx..<size_v v]" by auto
      moreover have "snd s1 ! (j - 1) = data_v v ! (j - 1)" using 3 f1(5) by auto
      ultimately show ?thesis using that f2(3) s3 3 by auto
    next
      case 4
      then have "\<not> (1 \<le> j \<and> j - 1 \<in> set [idx..<size_v v])" by auto
      then show ?thesis using that f1(3) f2(3) s3 4 pos by auto
    qed
  qed
  have tk: "take (size_v v) (data_v v) = data_v v" using len by simp
  have el: "elements ?v' = take idx (elements v) @ Some x # drop idx (elements v)"
    unfolding elements_def tk
  proof (rule nth_equalityI)
    show "length (take (size_v ?v') (data_v ?v')) =
        length (take idx (data_v v) @ Some x # drop idx (data_v v))"
      using len lt pos f2(1) s3 by simp
  next
    fix j assume "j < length (take (size_v ?v') (data_v ?v'))"
    then have j: "j < size_v v + 1" by simp
    then have jm: "j < m" using lt by simp
    consider "j < idx" | "j = idx" | "idx < j" by linarith
    then show "take (size_v ?v') (data_v ?v') ! j =
        (take idx (data_v v) @ Some x # drop idx (data_v v)) ! j"
    proof cases
      case 1
      then show ?thesis using j nth[OF jm] len pos by (simp add: nth_append)
    next
      case 2
      then show ?thesis using j nth[OF jm] len pos by (simp add: nth_append)
    next
      case 3
      then obtain k where k: "j = Suc (idx + k)" using less_iff_Suc_add by auto
      then show ?thesis using j nth[OF jm] len pos 3 by (simp add: nth_append)
    qed
  qed
  have "\<forall>j<length (fst s3). (fst s3 ! j \<noteq> None) = (j < size_v v + 1)"
  proof (intro allI impI)
    fix j assume "j < length (fst s3)"
    then have jm: "j < m" using f2(1) s3 by simp
    show "(fst s3 ! j \<noteq> None) = (j < size_v v + 1)"
      using nth[OF jm] live pos by auto
  qed
  then have inv': "vector_inv T ?v'"
    using lt f2(1) s3 sz fits by (simp add: vector_inv_iff m_def)
  show ?thesis using run el inv' by auto
qed

lemma shift_right_loop:
  assumes quiet: "\<forall>x. \<not> move_assign_throws T x"
  shows "hi < length b \<Longrightarrow> \<forall>j. lo \<le> j \<and> j \<le> hi \<longrightarrow> b ! j \<noteq> None \<Longrightarrow>
     \<exists>b'. for_each (\<lambda>i. MoveAssign_same T (i + 1) i) (rev [lo..<hi]) b = Returns () b'
        \<and> length b' = length b
        \<and> (\<forall>j<length b. b' ! j =
              (if lo < j \<and> j \<le> hi then b ! (j - 1)
               else if j = lo \<and> lo < hi then map_option (moved_from T) (b ! lo)
               else b ! j))"
proof (induction hi arbitrary: b)
  case 0
  then show ?case by simp
next
  case (Suc h)
  show ?case
  proof (cases "lo \<le> h")
    case False
    then have far: "Suc h \<le> lo" by simp
    then have e: "rev [lo..<Suc h] = []" by simp
    show ?thesis unfolding e
      by (rule exI[of _ b]) (use far in auto)
  next
    case True
    from Suc.prems True obtain x y where x: "b ! h = Some x" and y: "b ! Suc h = Some y"
      by (metis le_Suc_eq le_refl not_None_eq)
    let ?b1 = "b[h := Some (moved_from T x), Suc h := Some x]"
    have step: "MoveAssign_same T (h + 1) h b = Returns () ?b1"
      using Suc.prems(1) x y quiet by (simp add: MoveAssign_same_def)
    have h1: "h < length ?b1" using Suc.prems(1) by simp
    have l1: "\<forall>j. lo \<le> j \<and> j \<le> h \<longrightarrow> ?b1 ! j \<noteq> None"
      using Suc.prems by (auto simp: nth_list_update)
    from Suc.IH[OF h1 l1] obtain b' where
      run: "for_each (\<lambda>i. MoveAssign_same T (i + 1) i) (rev [lo..<h]) ?b1 = Returns () b'"
      and len: "length b' = length ?b1"
      and nth: "\<forall>j<length ?b1. b' ! j =
              (if lo < j \<and> j \<le> h then ?b1 ! (j - 1)
               else if j = lo \<and> lo < h then map_option (moved_from T) (?b1 ! lo)
               else ?b1 ! j)"
      by blast
    have whole: "for_each (\<lambda>i. MoveAssign_same T (i + 1) i) (rev [lo..<Suc h]) b = Returns () b'"
      using True step run by simp
    have "b' ! j =
              (if lo < j \<and> j \<le> Suc h then b ! (j - 1)
               else if j = lo \<and> lo < Suc h then map_option (moved_from T) (b ! lo)
               else b ! j)" if j: "j < length b" for j
    proof -
      from nth j have e: "b' ! j =
              (if lo < j \<and> j \<le> h then ?b1 ! (j - 1)
               else if j = lo \<and> lo < h then map_option (moved_from T) (?b1 ! lo)
               else ?b1 ! j)" by simp
      consider "lo < j" "j \<le> h" | "j = Suc h" | "j = lo" "lo < h" | "j = lo" "lo = h"
        | "j < lo" | "Suc h < j"
        using True by linarith
      then show ?thesis
      proof cases
        case 1
        then show ?thesis using e Suc.prems(1) by (simp add: nth_list_update)
      next
        case 2
        then show ?thesis using e Suc.prems(1) True x by (simp add: nth_list_update)
      next
        case 3
        then show ?thesis using e Suc.prems(1) by (simp add: nth_list_update)
      next
        case 4
        then show ?thesis using e Suc.prems(1) x by (simp add: nth_list_update)
      next
        case 5
        then show ?thesis using e Suc.prems(1) True by (simp add: nth_list_update)
      next
        case 6
        then show ?thesis using e j True by (simp add: nth_list_update)
      qed
    qed
    with whole len show ?thesis by auto
  qed
qed

lemma Emplace_in_place_interior:
  assumes inv: "vector_inv T v" and room: "size_v v < Capacity v" and pos: "idx + 1 < size_v v"
    and quiet: "\<forall>x. \<not> move_assign_throws T x" "\<forall>x. move_of T x = Some x"
  shows "\<exists>v'. Emplace T idx (Some x) v = Returns idx v' \<and> size_v v' = size_v v + 1
     \<and> elements v' = take idx (elements v) @ Some x # drop idx (elements v)
     \<and> vector_inv T v'"
proof -
  from inv have len: "size_v v \<le> length (data_v v)"
    and live: "\<forall>j<length (data_v v). (data_v v ! j \<noteq> None) = (j < size_v v)"
    and st: "length (data_v v) = capacity_v v" "0 < size_of T"
      "int (capacity_v v) * int (size_of T) < 2 ^ 63"
    by (auto simp: vector_inv_iff)
  from room st(1) have cap: "size_v v < length (data_v v)" by (simp add: Capacity_def)
  from pos live cap obtain y where y: "data_v v ! (size_v v - 1) = Some y"
    by (metis diff_less less_imp_diff_less less_nat_zero_code not_None_eq not_gr_zero zero_less_one)
  let ?b1 = "(data_v v)[size_v v - 1 := Some (moved_from T y), size_v v := Some y]"
  have mc: "MoveConstruct_same T (size_v v) (size_v v - 1) (data_v v) = Returns () ?b1"
    using cap y quiet(2) pos by (simp add: MoveConstruct_same_def)
  have h1: "size_v v - 1 < length ?b1" using cap by simp
  have l1: "\<forall>j. idx \<le> j \<and> j \<le> size_v v - 1 \<longrightarrow> ?b1 ! j \<noteq> None"
    using live cap pos by (auto simp: nth_list_update)
  from shift_right_loop[OF quiet(1) h1 l1] obtain b2 where
    run: "for_each (\<lambda>i. MoveAssign_same T (i + 1) i) (rev [idx..<size_v v - 1]) ?b1 = Returns () b2"
    and len2: "length b2 = length (data_v v)"
    and nth2: "\<forall>j<length (data_v v). b2 ! j =
              (if idx < j \<and> j \<le> size_v v - 1 then ?b1 ! (j - 1)
               else if j = idx \<and> idx < size_v v - 1 then map_option (moved_from T) (?b1 ! idx)
               else ?b1 ! j)"
    by auto
  have one: "size_v v - (size_v v - 1) = 1" using pos by simp
  have mb: "move_backward T idx (size_v v - 1) (size_v v) ?b1 = Returns () b2"
    using run pos by (simp add: move_backward_def one)
  have "b2 ! idx \<noteq> None" using nth2 live cap pos by (auto simp: nth_list_update)
  then have ma: "MoveAssign_value T idx x b2 = Returns () (b2[idx := Some x])"
    using len2 cap pos quiet(1) by (auto simp: MoveAssign_value_def)
  let ?v' = "v\<lparr>data_v := b2[idx := Some x], size_v := size_v v + 1\<rparr>"
  have run': "Emplace T idx (Some x) v = Returns idx ?v'"
    using room pos mc mb ma by (simp add: Emplace_def and_then_def)
  have nth: "(b2[idx := Some x]) ! j = (if j < idx then data_v v ! j else if j = idx then Some x
                          else if j \<le> size_v v then data_v v ! (j - 1) else data_v v ! j)"
    if j: "j < length (data_v v)" for j
  proof -
    consider "j < idx" | "j = idx" | "idx < j" "j \<le> size_v v - 1" | "j = size_v v" | "size_v v < j"
      using pos by linarith
    then show ?thesis
    proof cases
      case 1
      then show ?thesis using nth2 j len2 pos by (simp add: nth_list_update)
    next
      case 2
      then show ?thesis using j len2 by simp
    next
      case 3
      then show ?thesis using nth2 j len2 pos by (auto simp: nth_list_update)
    next
      case 4
      have "\<not> size_v v \<le> size_v v - 1" "size_v v \<noteq> idx" "\<not> size_v v < idx"
        using pos by auto
      then show ?thesis using 4 nth2 j len2 y by (simp add: nth_list_update)
    next
      case 5
      have "\<not> j \<le> size_v v - 1" "j \<noteq> idx" "\<not> j < idx" "\<not> j \<le> size_v v"
        "j \<noteq> size_v v - 1" "j \<noteq> size_v v" using 5 pos by auto
      then show ?thesis using nth2 j len2 by (simp add: nth_list_update)
    qed
  qed
  have el: "elements ?v' = take idx (elements v) @ Some x # drop idx (elements v)"
    unfolding elements_def
  proof (rule nth_equalityI)
    show "length (take (size_v ?v') (data_v ?v')) =
        length (take idx (take (size_v v) (data_v v)) @ Some x # drop idx (take (size_v v) (data_v v)))"
      using len cap pos len2 by simp
  next
    fix j assume "j < length (take (size_v ?v') (data_v ?v'))"
    then have j: "j < size_v v + 1" by simp
    then have jm: "j < length (data_v v)" using cap by simp
    consider "j < idx" | "j = idx" | "idx < j" by linarith
    then show "take (size_v ?v') (data_v ?v') ! j =
        (take idx (take (size_v v) (data_v v)) @ Some x # drop idx (take (size_v v) (data_v v))) ! j"
    proof cases
      case 1
      then show ?thesis using j nth[OF jm] len pos by (simp add: nth_append)
    next
      case 2
      then show ?thesis using j nth[OF jm] len pos by (simp add: nth_append)
    next
      case 3
      then obtain k where k: "j = Suc (idx + k)" using less_iff_Suc_add by auto
      then show ?thesis using j nth[OF jm] len pos 3 by (simp add: nth_append)
    qed
  qed
  have "\<forall>j<length (b2[idx := Some x]). ((b2[idx := Some x]) ! j \<noteq> None) = (j < size_v v + 1)"
  proof (intro allI impI)
    fix j assume "j < length (b2[idx := Some x])"
    then have jm: "j < length (data_v v)" using len2 by simp
    consider "j < size_v v" | "j = size_v v" | "size_v v < j" by linarith
    then show "((b2[idx := Some x]) ! j \<noteq> None) = (j < size_v v + 1)"
    proof cases
      case 1
      then show ?thesis using nth[OF jm] live jm pos by auto
    next
      case 2
      then show ?thesis using nth[OF jm] live jm pos by auto
    next
      case 3
      then show ?thesis using nth[OF jm] live jm pos by auto
    qed
  qed
  then have inv': "vector_inv T ?v'" using cap len2 st by (simp add: vector_inv_iff)
  show ?thesis using run' el inv' by auto
qed

section \<open>PopBack, Erase and the remaining in-place cases of Emplace\<close>

lemma Swap_inv: "vector_inv T a \<Longrightarrow> vector_inv T b \<Longrightarrow> vector_inv T (fst (Swap a b)) \<and> vector_inv T (snd (Swap a b))"
  by (simp add: Swap_values)

lemma PopBack_Returns:
  assumes "vector_inv T v" "0 < size_v v"
  shows "PopBack v = Returns () (v\<lparr>data_v := (data_v v)[size_v v - 1 := None], size_v := size_v v - 1\<rparr>)
     \<and> vector_inv T (v\<lparr>data_v := (data_v v)[size_v v - 1 := None], size_v := size_v v - 1\<rparr>)
     \<and> elements (v\<lparr>data_v := (data_v v)[size_v v - 1 := None], size_v := size_v v - 1\<rparr>)
         = butlast (elements v)"
proof -
  from assms(1) have len: "size_v v \<le> length (data_v v)"
    and live: "\<forall>j<length (data_v v). (data_v v ! j \<noteq> None) = (j < size_v v)"
    and st: "length (data_v v) = capacity_v v" "0 < size_of T"
      "int (capacity_v v) * int (size_of T) < 2 ^ 63"
    by (auto simp: vector_inv_iff)
  have lt: "size_v v - 1 < length (data_v v)" using len assms(2) by linarith
  then have "data_v v ! (size_v v - 1) \<noteq> None" using live assms(2) by simp
  then have d: "Destroy (size_v v - 1) (data_v v) = Returns () ((data_v v)[size_v v - 1 := None])"
    using lt by (simp add: Destroy_def)
  have run: "PopBack v = Returns () (v\<lparr>data_v := (data_v v)[size_v v - 1 := None], size_v := size_v v - 1\<rparr>)"
    using assms(2) d by (simp add: PopBack_def)
  have inv': "vector_inv T (v\<lparr>data_v := (data_v v)[size_v v - 1 := None], size_v := size_v v - 1\<rparr>)"
    unfolding vector_inv_iff using len live st assms(2) by (auto simp: nth_list_update)
  have "take (size_v v - 1) ((data_v v)[size_v v - 1 := None]) = butlast (take (size_v v) (data_v v))"
    using len by (simp add: butlast_take)
  then show ?thesis using run inv' by (simp add: elements_def)
qed

lemma Resize_shrink_inv:
  assumes "vector_inv T v" "n \<le> size_v v"
  shows "vector_inv T (v\<lparr>data_v := map (\<lambda>j. if n \<le> j \<and> j < size_v v then None else data_v v ! j)
                          [0..<Capacity v], size_v := n\<rparr>)"
  using assms unfolding vector_inv_iff by (auto simp: Capacity_def)

lemma Emplace_in_place_tail_inv:
  assumes "vector_inv T v" "size_v v < Capacity v" "0 < size_v v"
  shows "vector_inv T (v\<lparr>data_v := (data_v v)[size_v v - 1 := Some a, size_v v := Some b], size_v := size_v v + 1\<rparr>)"
  using assms unfolding vector_inv_iff by (auto simp: Capacity_def nth_list_update)

lemma Emplace_empty_in_place:
  assumes "vector_inv T v" "size_v v = 0" "0 < Capacity v"
  shows "Emplace T 0 (Some x) v = Returns 0 (v\<lparr>data_v := (data_v v)[0 := Some x], size_v := 1\<rparr>)
     \<and> vector_inv T (v\<lparr>data_v := (data_v v)[0 := Some x], size_v := 1\<rparr>)
     \<and> elements (v\<lparr>data_v := (data_v v)[0 := Some x], size_v := 1\<rparr>) = [Some x]"
proof -
  have one: "Suc 0 \<le> length (data_v v)"
    using assms(1,3) by (simp add: vector_inv_iff Capacity_def Suc_le_eq)
  have run: "Emplace T 0 (Some x) v = Returns 0 (v\<lparr>data_v := (data_v v)[0 := Some x], size_v := 1\<rparr>)"
    using assms one by (simp add: Emplace_def Suc_le_eq)
  have inv': "vector_inv T (v\<lparr>data_v := (data_v v)[0 := Some x], size_v := 1\<rparr>)"
    using assms one unfolding vector_inv_iff by (auto simp: Capacity_def nth_list_update)
  have "take 1 ((data_v v)[0 := Some x]) = [Some x]"
    using one by (cases "data_v v") simp_all
  then show ?thesis using run inv' by (simp add: elements_def)
qed

lemma shift_left_loop:
  assumes quiet: "\<forall>x. \<not> move_assign_throws T x"
  shows "hi \<le> length b \<Longrightarrow> 0 < lo \<Longrightarrow> \<forall>j. lo - 1 \<le> j \<and> j < hi \<longrightarrow> b ! j \<noteq> None \<Longrightarrow>
     \<exists>b'. for_each (\<lambda>i. MoveAssign_same T (i - 1) i) [lo..<hi] b = Returns () b'
        \<and> length b' = length b
        \<and> (\<forall>j<length b. b' ! j =
              (if lo - 1 \<le> j \<and> j + 1 < hi then b ! (j + 1)
               else if j + 1 = hi \<and> lo < hi then map_option (moved_from T) (b ! j)
               else b ! j))"
proof (induction hi)
  case 0
  then show ?case by simp
next
  case (Suc h)
  show ?case
  proof (cases "lo \<le> h")
    case False
    then have far: "Suc h \<le> lo" by simp
    then have e: "[lo..<Suc h] = []" by simp
    show ?thesis unfolding e
      by (rule exI[of _ b]) (use far in auto)
  next
    case True
    from Suc.prems have "h \<le> length b" "\<forall>j. lo - 1 \<le> j \<and> j < h \<longrightarrow> b ! j \<noteq> None"
      by auto
    from Suc.IH[OF this(1) Suc.prems(2) this(2)] obtain b1 where
      run: "for_each (\<lambda>i. MoveAssign_same T (i - 1) i) [lo..<h] b = Returns () b1"
      and len: "length b1 = length b"
      and nth: "\<forall>j<length b. b1 ! j =
              (if lo - 1 \<le> j \<and> j + 1 < h then b ! (j + 1)
               else if j + 1 = h \<and> lo < h then map_option (moved_from T) (b ! j)
               else b ! j)"
      by blast
    have hl: "h < length b" using Suc.prems(1) by simp
    from Suc.prems(3) True obtain x where x: "b ! h = Some x"
      by (metis lessI not_None_eq diff_le_self le_trans)
    have b1h: "b1 ! h = Some x" using nth hl x by simp
    have "b1 ! (h - 1) \<noteq> None"
    proof -
      have "h - 1 < length b" using hl by simp
      moreover have "lo - 1 \<le> h - 1 \<and> h - 1 < Suc h" using True by linarith
      then have "b ! (h - 1) \<noteq> None" using Suc.prems(3) by blast
      ultimately show ?thesis using nth Suc.prems(2) True by (auto split: if_splits)
    qed
    then obtain y where y: "b1 ! (h - 1) = Some y" by blast
    let ?b2 = "b1[h := Some (moved_from T x), h - 1 := Some x]"
    have step: "MoveAssign_same T (h - 1) h b1 = Returns () ?b2"
      using hl len b1h y quiet by (simp add: MoveAssign_same_def)
    have up: "[lo..<Suc h] = [lo..<h] @ [h]" using True by simp
    have whole: "for_each (\<lambda>i. MoveAssign_same T (i - 1) i) [lo..<Suc h] b = Returns () ?b2"
      unfolding up for_each_append using run step by (simp add: and_then_def)
    have "?b2 ! j =
              (if lo - 1 \<le> j \<and> j + 1 < Suc h then b ! (j + 1)
               else if j + 1 = Suc h \<and> lo < Suc h then map_option (moved_from T) (b ! j)
               else b ! j)" if j: "j < length b" for j
    proof -
      from nth j have e: "b1 ! j =
              (if lo - 1 \<le> j \<and> j + 1 < h then b ! (j + 1)
               else if j + 1 = h \<and> lo < h then map_option (moved_from T) (b ! j)
               else b ! j)" by simp
      consider "j = h" | "j + 1 = h" | "lo - 1 \<le> j" "j + 1 < h" | "j < lo - 1" | "h < j"
        by linarith
      then show ?thesis
      proof cases
        case 1
        then show ?thesis using hl len x True Suc.prems(2) by (simp add: nth_list_update)
      next
        case 2
        then have "lo - 1 \<le> j" "h - 1 = j" "j \<noteq> h" "j + 1 < Suc h" "Suc j = h"
          using True Suc.prems(2) by linarith+
        then show ?thesis using hl len x by (simp add: nth_list_update)
      next
        case 3
        then show ?thesis using e hl len by (simp add: nth_list_update)
      next
        case 4
        then have "j \<noteq> h" "j \<noteq> h - 1" "\<not> lo - 1 \<le> j" "j + 1 \<noteq> Suc h" "j + 1 \<noteq> h"
          using True by linarith+
        then show ?thesis using e by (simp add: nth_list_update)
      next
        case 5
        then have "j \<noteq> h" "j \<noteq> h - 1" "\<not> j + 1 < Suc h" "j + 1 \<noteq> Suc h" "\<not> j + 1 < h" "j + 1 \<noteq> h"
          by linarith+
        then show ?thesis using e by (simp add: nth_list_update)
      qed
    qed
    with whole len show ?thesis by auto
  qed
qed


lemma Erase_Returns:
  assumes inv: "vector_inv T v" and pos: "idx < size_v v"
    and quiet: "\<forall>x. \<not> move_assign_throws T x"
  shows "\<exists>v'. Erase T idx v = Returns idx v' \<and> size_v v' = size_v v - 1
     \<and> elements v' = take idx (elements v) @ drop (idx + 1) (elements v)
     \<and> vector_inv T v'"
proof -
  from inv have len: "size_v v \<le> length (data_v v)"
    and live: "\<forall>j<length (data_v v). (data_v v ! j \<noteq> None) = (j < size_v v)"
    and st: "length (data_v v) = capacity_v v" "0 < size_of T"
      "int (capacity_v v) * int (size_of T) < 2 ^ 63"
    by (auto simp: vector_inv_iff)
  have l: "\<forall>j. idx + 1 - 1 \<le> j \<and> j < size_v v \<longrightarrow> data_v v ! j \<noteq> None"
    using live len by auto
  from shift_left_loop[OF quiet len _ l] obtain b1 where
    run: "for_each (\<lambda>i. MoveAssign_same T (i - 1) i) [idx + 1..<size_v v] (data_v v) = Returns () b1"
    and len1: "length b1 = length (data_v v)"
    and nth1: "\<forall>j<length (data_v v). b1 ! j =
              (if idx \<le> j \<and> j + 1 < size_v v then data_v v ! (j + 1)
               else if j + 1 = size_v v \<and> idx + 1 < size_v v
                    then map_option (moved_from T) (data_v v ! j)
               else data_v v ! j)"
    by auto
  have one: "idx + 1 - idx = 1" by simp
  have mr: "move_range T (idx + 1) (size_v v) idx (data_v v) = Returns (size_v v - 1) b1"
    using run pos by (simp add: move_range_def one)
  have lt: "size_v v - 1 < length (data_v v)" using len pos by linarith
  have "data_v v ! (size_v v - 1) \<noteq> None" using live lt pos by simp
  then have "b1 ! (size_v v - 1) \<noteq> None" using nth1 lt pos by (auto split: if_splits)
  then have d: "Destroy (size_v v - 1) b1 = Returns () (b1[size_v v - 1 := None])"
    using lt len1 by (simp add: Destroy_def)
  let ?v' = "(v\<lparr>data_v := b1[size_v v - 1 := None], size_v := size_v v - 1\<rparr>)"
  have run': "Erase T idx v = Returns idx ?v'"
    using mr d by (simp add: Erase_def)
  have nth: "(b1[size_v v - 1 := None]) ! j =
      (if j < idx then data_v v ! j else if j + 1 < size_v v then data_v v ! (j + 1) else None)"
    if j: "j < length (data_v v)" for j
  proof -
    consider "j < idx" | "idx \<le> j" "j + 1 < size_v v" | "j + 1 = size_v v" | "size_v v \<le> j"
      by linarith
    then show ?thesis
    proof cases
      case 1
      then have "j \<noteq> size_v v - 1" "\<not> idx \<le> j" "j + 1 \<noteq> size_v v" "j + 1 < size_v v"
        using pos by linarith+
      then show ?thesis using nth1 j 1 by (simp add: nth_list_update)
    next
      case 2
      then have "j \<noteq> size_v v - 1" "\<not> j < idx" by linarith+
      then show ?thesis using nth1 j 2 by (simp add: nth_list_update)
    next
      case 3
      then have "j = size_v v - 1" "\<not> j < idx" "\<not> j + 1 < size_v v" using pos by linarith+
      then show ?thesis using j len1 by (simp add: nth_list_update)
    next
      case 4
      then have "j \<noteq> size_v v - 1" "\<not> j < idx" "\<not> j + 1 < size_v v" "j + 1 \<noteq> size_v v"
        using pos by linarith+
      moreover have "data_v v ! j = None" using live j 4 by auto
      ultimately show ?thesis using nth1 j by (simp add: nth_list_update)
    qed
  qed
  have tk: "take (size_v v) (data_v v) ! j = data_v v ! j" if "j < size_v v" for j
    using that by simp
  have el: "elements ?v' = take idx (elements v) @ drop (idx + 1) (elements v)"
    unfolding elements_def
  proof (rule nth_equalityI)
    show "length (take (size_v ?v') (data_v ?v')) =
        length (take idx (take (size_v v) (data_v v)) @ drop (idx + 1) (take (size_v v) (data_v v)))"
      using len pos len1 by simp
  next
    fix j assume "j < length (take (size_v ?v') (data_v ?v'))"
    then have j: "j < size_v v - 1" by simp
    then have jm: "j < length (data_v v)" using len by simp
    show "take (size_v ?v') (data_v ?v') ! j =
        (take idx (take (size_v v) (data_v v)) @ drop (idx + 1) (take (size_v v) (data_v v))) ! j"
    proof (cases "j < idx")
      case True
      then show ?thesis using j nth[OF jm] len pos by (simp add: nth_append)
    next
      case False
      then obtain k where k: "j = idx + k" using le_Suc_ex linorder_not_less by blast
      then have "k + idx + 1 < size_v v" using j by simp
      then show ?thesis using j nth[OF jm] len pos False k by (simp add: nth_append add.commute)
    qed
  qed
  have "\<forall>j<length (b1[size_v v - 1 := None]).
      ((b1[size_v v - 1 := None]) ! j \<noteq> None) = (j < size_v v - 1)"
  proof (intro allI impI)
    fix j assume "j < length (b1[size_v v - 1 := None])"
    then have jm: "j < length (data_v v)" using len1 by simp
    show "((b1[size_v v - 1 := None]) ! j \<noteq> None) = (j < size_v v - 1)"
      using nth[OF jm] live jm pos len by (auto split: if_splits)
  qed
  then have inv': "vector_inv T ?v'" using len len1 st by (simp add: vector_inv_iff)
  show ?thesis using run' el inv' by auto
qed

section \<open>Constructors and copy assignment\<close>

lemma Vector_sized_Returns:
  assumes "Vector_sized T n = Returns v u" "0 < size_of T"
  shows "size_v v = n \<and> data_v v = replicate n (Some (default_value T)) \<and> vector_inv T v"
proof -
  from assms(1) obtain d where nd: "new_RawMemory T n = Inr d"
    by (cases "new_RawMemory T n") (auto simp: Vector_sized_def)
  from assms(1) nd obtain r b where
    uvc: "uninitialized_value_construct_n T n d = Returns r b"
    by (cases "uninitialized_value_construct_n T n d") (auto simp: Vector_sized_def)
  from assms(1) have v: "v = \<lparr>data_v = b, capacity_v = n, size_v = n\<rparr>"
    unfolding Vector_sized_def nd sum.case uvc by auto
  from uvc have loop: "for_each (ValueConstruct T) [0..<n] d = Returns r b"
    by (simp add: uninitialized_value_construct_n_def guarded_Returns_iff)
  from for_each_ValueConstruct_Returns[OF loop] have "\<forall>i<n. i < length d" by auto
  then have "n \<le> length d" by (cases n) auto
  from new_RawMemory_storage[OF nd assms(2) this]
  have d: "d = replicate n None" and st: "storage_for T n d" by blast+
  from for_each_ValueConstruct_Returns[OF loop] have f: "length b = n"
    "\<forall>j<n. b ! j = Some (default_value T)"
    unfolding d by auto
  have b: "b = replicate n (Some (default_value T))"
    by (rule nth_equalityI) (use f in auto)
  show ?thesis unfolding v b using st by (simp add: vector_inv_iff storage_for_def)
qed

lemma copy_loop_Returns:
  assumes "for_each (\<lambda>i. CopyConstruct T i i) is s = Returns r s'" "distinct is"
  shows "length (fst s') = length (fst s) \<and> snd s' = snd s
     \<and> (\<forall>i\<in>set is. i < length (snd s) \<and> snd s ! i \<noteq> None \<and> i < length (fst s))
     \<and> (\<forall>j<length (fst s). fst s' ! j = (if j \<in> set is then snd s ! j else fst s ! j))"
proof -
  have same: "snd s' = snd s"
    using assms(1)
  proof (induction "is" arbitrary: s)
    case Nil
    then show ?case by simp
  next
    case (Cons i "is")
    from Cons.prems obtain s1 where a: "CopyConstruct T i i s = Returns () s1"
      and b: "for_each (\<lambda>i. CopyConstruct T i i) is s1 = Returns r s'"
      by (auto split: outcome.splits)
    from CopyConstruct_Returns[OF a] have "snd s1 = snd s" by auto
    with Cons.IH[OF b] show ?case by simp
  qed
  from assms(1) have "for_each (\<lambda>i. CopyConstruct T (i + 0) i) is s = Returns r s'" by simp
  from transfer_loop_Returns[where body = "\<lambda>i. CopyConstruct T (i + 0) i" and off = 0,
      OF CopyConstruct_step this assms(2)] same
  show ?thesis by simp
qed

lemma Vector_copy_Returns:
  assumes "Vector_copy T other = Returns v u" "0 < size_of T"
  shows "size_v v = size_v other \<and> Capacity v = size_v other
     \<and> elements v = elements other \<and> vector_inv T v"
proof -
  from assms(1) obtain d where nd: "new_RawMemory T (size_v other) = Inr d"
    by (cases "new_RawMemory T (size_v other)") (auto simp: Vector_copy_def)
  from assms(1) nd obtain r s where
    cp: "uninitialized_copy_n T (size_v other) (d, data_v other) = Returns r s"
    by (cases "uninitialized_copy_n T (size_v other) (d, data_v other)") (auto simp: Vector_copy_def)
  from assms(1) have v: "v = \<lparr>data_v = fst s, capacity_v = size_v other, size_v = size_v other\<rparr>"
    unfolding Vector_copy_def nd sum.case cp by auto
  from cp have loop: "for_each (\<lambda>i. CopyConstruct T i i) [0..<size_v other]
      (d, data_v other) = Returns r s"
    by (simp add: uninitialized_copy_n_def guarded_Returns_iff)
  from copy_loop_Returns[OF loop] have "\<forall>i<size_v other. i < length d" by auto
  then have "size_v other \<le> length d" by (cases "size_v other") auto
  from new_RawMemory_storage[OF nd assms(2) this]
  have d: "d = replicate (size_v other) None" and st: "storage_for T (size_v other) d"
    by blast+
  from copy_loop_Returns[OF loop] have f: "length (fst s) = size_v other"
    "\<forall>i<size_v other. i < length (data_v other) \<and> data_v other ! i \<noteq> None"
    "\<forall>j<size_v other. fst s ! j = data_v other ! j"
    unfolding d by auto
  have le: "size_v other \<le> length (data_v other)"
  proof (cases "size_v other")
    case 0
    then show ?thesis by simp
  next
    case (Suc k)
    with f(2) have "k < length (data_v other)" by auto
    with Suc show ?thesis by simp
  qed
  have el: "elements v = elements other"
    unfolding elements_def v
    by (rule nth_equalityI) (use f le in auto)
  have "vector_inv T v" unfolding v vector_inv_iff using f st by (auto simp: storage_for_def)
  then show ?thesis using el f(1) unfolding v by (simp add: Capacity_def)
qed

lemma for_each_Destroy_new_Returns:
  "for_each Destroy_new is s = Returns r s' \<Longrightarrow>
     for_each Destroy is (fst s) = Returns () (fst s') \<and> snd s' = snd s"
proof (induction "is" arbitrary: s)
  case Nil
  then show ?case by simp
next
  case (Cons i "is")
  from Cons.prems obtain s1 where a: "Destroy_new i s = Returns () s1"
    and b: "for_each Destroy_new is s1 = Returns r s'"
    by (auto split: outcome.splits)
  from a have "Destroy i (fst s) = Returns () (fst s1)" "snd s1 = snd s"
    by (auto simp: Destroy_new_def split: outcome.splits)
  with Cons.IH[OF b] show ?case by simp
qed

lemma CopyAssign_Returns:
  "CopyAssign T i s = Returns r s' \<Longrightarrow>
     i < length (fst s) \<and> i < length (snd s) \<and> fst s ! i \<noteq> None
     \<and> snd s ! i \<noteq> None \<and> s' = ((fst s)[i := snd s ! i], snd s)"
  by (cases s) (auto simp: CopyAssign_def split: if_splits option.splits)

lemma for_each_CopyAssign_Returns:
  "for_each (CopyAssign T) is s = Returns r s' \<Longrightarrow>
     length (fst s') = length (fst s) \<and> snd s' = snd s
     \<and> (\<forall>i\<in>set is. i < length (fst s) \<and> i < length (snd s) \<and> fst s ! i \<noteq> None \<and> snd s ! i \<noteq> None)
     \<and> (\<forall>j<length (fst s). fst s' ! j = (if j \<in> set is then snd s ! j else fst s ! j))"
proof (induction "is" arbitrary: s)
  case Nil
  then show ?case by simp
next
  case (Cons i "is")
  from Cons.prems obtain s1 where a: "CopyAssign T i s = Returns () s1"
    and b: "for_each (CopyAssign T) is s1 = Returns r s'"
    by (auto split: outcome.splits)
  from CopyAssign_Returns[OF a] have st: "i < length (fst s)" "i < length (snd s)"
    "fst s ! i \<noteq> None" "snd s ! i \<noteq> None" "fst s1 = (fst s)[i := snd s ! i]" "snd s1 = snd s"
    by auto
  from Cons.IH[OF b] have ih: "length (fst s') = length (fst s1)" "snd s' = snd s1"
    "\<forall>k\<in>set is. k < length (fst s1) \<and> k < length (snd s1) \<and> fst s1 ! k \<noteq> None \<and> snd s1 ! k \<noteq> None"
    "\<forall>j<length (fst s1). fst s' ! j = (if j \<in> set is then snd s1 ! j else fst s1 ! j)"
    by blast+
  have c3: "\<forall>k\<in>set (i # is). k < length (fst s) \<and> k < length (snd s) \<and> fst s ! k \<noteq> None \<and> snd s ! k \<noteq> None"
  proof
    fix k assume k: "k \<in> set (i # is)"
    show "k < length (fst s) \<and> k < length (snd s) \<and> fst s ! k \<noteq> None \<and> snd s ! k \<noteq> None"
    proof (cases "k = i")
      case True
      then show ?thesis using st by simp
    next
      case False
      with k have "k \<in> set is" by simp
      with ih(3) st False show ?thesis by (auto simp: nth_list_update)
    qed
  qed
  have c4: "\<forall>j<length (fst s). fst s' ! j = (if j \<in> set (i # is) then snd s ! j else fst s ! j)"
    using ih(4) st by (auto simp: nth_list_update)
  show ?case using ih(1,2) st(5,6) c3 c4 by simp
qed


lemma copy_assign_from_Returns:
  assumes run: "copy_assign_from T this rhs = Returns r v'"
    and inv: "vector_inv T this" and inv_rhs: "vector_inv T rhs"
  shows "size_v v' = size_v rhs \<and> elements v' = elements rhs \<and> vector_inv T v'"
proof -
  from inv have len: "size_v this \<le> length (data_v this)"
    and live: "\<forall>j<length (data_v this). (data_v this ! j \<noteq> None) = (j < size_v this)"
    and st: "length (data_v this) = capacity_v this" "0 < size_of T"
      "int (capacity_v this) * int (size_of T) < 2 ^ 63"
    by (auto simp: vector_inv_iff)
  from inv_rhs have rlen: "size_v rhs \<le> length (data_v rhs)"
    and rlive: "\<forall>j<length (data_v rhs). (data_v rhs ! j \<noteq> None) = (j < size_v rhs)"
    by (auto simp: vector_inv_iff)
  have goal: "size_v v' = size_v rhs \<and> elements v' = elements rhs \<and> vector_inv T v'"
    if v': "v' = this\<lparr>data_v := b, size_v := size_v rhs\<rparr>"
      and lb: "length b = length (data_v this)" and fits: "size_v rhs \<le> length (data_v this)"
      and nth: "\<forall>j<length (data_v this). b ! j = (if j < size_v rhs then data_v rhs ! j else None)"
    for b
  proof -
    have el: "elements v' = elements rhs"
      unfolding elements_def v'
      by (rule nth_equalityI) (use lb fits rlen nth in auto)
    have "\<forall>j<length b. (b ! j \<noteq> None) = (j < size_v rhs)"
      using nth lb rlive rlen by auto
    then have "vector_inv T v'" unfolding v' vector_inv_iff using lb fits st by simp
    with el show ?thesis unfolding v' by simp
  qed
  show ?thesis
  proof (cases "size_v rhs \<le> Capacity this")
    case fits: True
    then have fits': "size_v rhs \<le> length (data_v this)" using st(1) by (simp add: Capacity_def)
    show ?thesis
    proof (cases "size_v rhs < size_v this")
      case True
      let ?m = "and_then
                   (for_each (CopyAssign T) [0..<size_v rhs] (data_v this, data_v rhs))
                   (for_each Destroy_new [size_v rhs..<size_v this])"
      from run fits True have run': "(case ?m of
              Returns r s \<Rightarrow> Returns () (this\<lparr>data_v := fst s, size_v := size_v rhs\<rparr>)
            | Throws e s \<Rightarrow> Throws e (this\<lparr>data_v := fst s\<rparr>)
            | Undefined \<Rightarrow> Undefined) = Returns r v'"
        by (simp add: copy_assign_from_def)
      then obtain u s2 where s2: "?m = Returns u s2" by (cases ?m) simp_all
      from run' have v': "v' = this\<lparr>data_v := fst s2, size_v := size_v rhs\<rparr>"
        unfolding s2 by auto
      from s2 obtain u1 s1 where
        s1: "for_each (CopyAssign T) [0..<size_v rhs] (data_v this, data_v rhs) = Returns u1 s1"
        by (cases "for_each (CopyAssign T) [0..<size_v rhs] (data_v this, data_v rhs)")
          (simp_all add: and_then_def)
      from s2 s1 have d: "for_each Destroy_new [size_v rhs..<size_v this] s1 = Returns u s2"
        by (simp add: and_then_def)
      from for_each_CopyAssign_Returns[OF s1] have f1: "length (fst s1) = length (data_v this)"
        "\<forall>j<length (data_v this). fst s1 ! j = (if j < size_v rhs then data_v rhs ! j else data_v this ! j)"
        by auto
      from for_each_Destroy_new_Returns[OF d]
      have "for_each Destroy [size_v rhs..<size_v this] (fst s1) = Returns () (fst s2)" by simp
      from for_each_Destroy_Returns[OF this] have f2: "length (fst s2) = length (fst s1)"
        "\<forall>j<length (fst s1). fst s2 ! j = (if j \<in> set [size_v rhs..<size_v this] then None else fst s1 ! j)"
        by blast+
      have "\<forall>j<length (data_v this). fst s2 ! j = (if j < size_v rhs then data_v rhs ! j else None)"
      proof (intro allI impI)
        fix j assume j: "j < length (data_v this)"
        consider "j < size_v rhs" | "size_v rhs \<le> j" "j < size_v this" | "size_v this \<le> j"
          by linarith
        then show "fst s2 ! j = (if j < size_v rhs then data_v rhs ! j else None)"
        proof cases
          case 1
          then show ?thesis using f1 f2 j by simp
        next
          case 2
          then show ?thesis using f1 f2 j by simp
        next
          case 3
          then have "data_v this ! j = None" using live j by auto
          then show ?thesis using 3 True f1 f2 j by simp
        qed
      qed
      from goal[OF v' _ fits' this] f1 f2 show ?thesis by simp
    next
      case False
      let ?m = "and_then
                   (for_each (CopyAssign T) [0..<size_v this] (data_v this, data_v rhs))
                   (uninitialized_copy T (size_v this) (size_v rhs))"
      from run fits False have run': "(case ?m of
              Returns r s \<Rightarrow> Returns () (this\<lparr>data_v := fst s, size_v := size_v rhs\<rparr>)
            | Throws e s \<Rightarrow> Throws e (this\<lparr>data_v := fst s\<rparr>)
            | Undefined \<Rightarrow> Undefined) = Returns r v'"
        by (simp add: copy_assign_from_def)
      then obtain u s2 where s2: "?m = Returns u s2" by (cases ?m) simp_all
      from run' have v': "v' = this\<lparr>data_v := fst s2, size_v := size_v rhs\<rparr>"
        unfolding s2 by auto
      from s2 obtain u1 s1 where
        s1: "for_each (CopyAssign T) [0..<size_v this] (data_v this, data_v rhs) = Returns u1 s1"
        by (cases "for_each (CopyAssign T) [0..<size_v this] (data_v this, data_v rhs)")
          (simp_all add: and_then_def)
      from s2 s1 have "uninitialized_copy T (size_v this) (size_v rhs) s1 = Returns u s2"
        by (simp add: and_then_def)
      then have c: "for_each (\<lambda>i. CopyConstruct T i i) [size_v this..<size_v rhs] s1 = Returns u s2"
        by (simp add: uninitialized_copy_def guarded_Returns_iff)
      from for_each_CopyAssign_Returns[OF s1] have f1: "length (fst s1) = length (data_v this)"
        "snd s1 = data_v rhs"
        "\<forall>j<length (data_v this). fst s1 ! j = (if j < size_v this then data_v rhs ! j else data_v this ! j)"
        by auto
      from copy_loop_Returns[OF c] have f2: "length (fst s2) = length (fst s1)"
        "\<forall>j<length (fst s1). fst s2 ! j = (if j \<in> set [size_v this..<size_v rhs] then snd s1 ! j else fst s1 ! j)"
        by auto
      have "\<forall>j<length (data_v this). fst s2 ! j = (if j < size_v rhs then data_v rhs ! j else None)"
      proof (intro allI impI)
        fix j assume j: "j < length (data_v this)"
        consider "j < size_v this" | "size_v this \<le> j" "j < size_v rhs" | "size_v rhs \<le> j"
          by linarith
        then show "fst s2 ! j = (if j < size_v rhs then data_v rhs ! j else None)"
        proof cases
          case 1
          then show ?thesis using f1 f2 j False by simp
        next
          case 2
          then show ?thesis using f1 f2 j by simp
        next
          case 3
          then have "data_v this ! j = None" using live j False by auto
          then show ?thesis using 3 False f1 f2 j by simp
        qed
      qed
      from goal[OF v' _ fits' this] f1 f2 show ?thesis by simp
    qed
  next
    case False
    from run False have run': "(case Vector_copy T rhs of
           Returns rhs_copy u \<Rightarrow>
             (case Swap this rhs_copy of
                (this', rhs_copy') \<Rightarrow>
                  (case Vector_dtor rhs_copy' of
                     Returns r b \<Rightarrow> Returns () this'
                   | Throws e b \<Rightarrow> Undefined
                   | Undefined \<Rightarrow> Undefined))
         | Throws e u \<Rightarrow> Throws e this
         | Undefined \<Rightarrow> Undefined) = Returns r v'"
      by (simp add: copy_assign_from_def)
    then obtain c u where c: "Vector_copy T rhs = Returns c u"
      by (cases "Vector_copy T rhs") simp_all
    from run' have "v' = c"
      unfolding c outcome.case Swap_values prod.case
      by (cases "Vector_dtor this") simp_all
    with Vector_copy_Returns[OF c st(2)] show ?thesis by simp
  qed
qed

end
